theory Spec2Isabelle
  imports Main "HOL-Library.Word"
begin

section \<open>The sprite detection engine: data model\<close>

text \<open>
  The detection module works on the flat RGBA buffer of a canvas
  (\<^verbatim>\<open>Uint8ClampedArray\<close>, four bytes per pixel, row-major).  JavaScript numbers that
  hold coordinates, sizes, indices and tolerances are modelled as \<open>int\<close>; a byte of the
  buffer is an \<open>8 word\<close>.  Reading a typed array outside its range yields
  \<^verbatim>\<open>undefined\<close>: \<open>rd\<close> returns \<open>None\<close> there.  Writing outside the range is ignored,
  and a written number is clamped to \<open>0..255\<close>.
\<close>

type_synonym byte = "8 word"
type_synonym buffer = "byte list"

text \<open>A colour as the module passes it around: the array \<^verbatim>\<open>[r, g, b, a]\<close> of numbers.\<close>

type_synonym color = "int \<times> int \<times> int \<times> int"

definition rd :: "buffer \<Rightarrow> int \<Rightarrow> int option" where
  "rd data i = (if 0 \<le> i \<and> i < int (length data) then Some (uint (data ! nat i)) else None)"

definition clamp8 :: "int \<Rightarrow> byte" where
  "clamp8 v = word_of_int (max 0 (min 255 v))"

definition wr :: "buffer \<Rightarrow> int \<Rightarrow> int \<Rightarrow> buffer" where
  "wr data i v = (if 0 \<le> i \<and> i < int (length data) then data[nat i := clamp8 v] else data)"

subsection \<open>Background membership (\<^verbatim>\<open>isBackgroundColor\<close>)\<close>

text \<open>
  \<^verbatim>\<open>a === 0\<close> returns true; \<^verbatim>\<open>bgColor[3] < 255 && a > 0\<close> returns false; otherwise
  the summed absolute RGB difference is compared with the tolerance.  Comparisons and
  arithmetic with \<^verbatim>\<open>undefined\<close> give false and \<^verbatim>\<open>NaN\<close>, so a missing channel makes
  the last comparison false.
\<close>

definition isBackgroundColor :: "buffer \<Rightarrow> int \<Rightarrow> color \<Rightarrow> int \<Rightarrow> bool" where
  "isBackgroundColor data index bgColor tolerance =
     (let r = rd data index; g = rd data (index + 1); b = rd data (index + 2);
          a = rd data (index + 3)
      in if a = Some 0 then True
         else if snd (snd (snd bgColor)) < 255 \<and> (case a of None \<Rightarrow> False | Some av \<Rightarrow> av > 0)
         then False
         else (case bgColor of (bgR, bgG, bgB, bgA) \<Rightarrow>
                (case (r, g, b) of
                   (Some rv, Some gv, Some bv) \<Rightarrow>
                     \<bar>rv - bgR\<bar> + \<bar>gv - bgG\<bar> + \<bar>bv - bgB\<bar> \<le> tolerance
                 | _ \<Rightarrow> False)))"

subsection \<open>Configuration, images, frames and errors\<close>

text \<open>
  \<open>DetectionConfig\<close> is a complete configuration (\<^verbatim>\<open>DEFAULT_CONFIG\<close> merged with the
  caller's object).  \<open>noiseThreshold\<close> is the one field a claim reads as possibly
  \<^verbatim>\<open>undefined\<close>; it is an \<open>int option\<close> with \<open>None\<close> for \<^verbatim>\<open>undefined\<close>.
\<close>

record DetectionConfig =
  tolerance :: int
  minSpriteSize :: int
  use8WayConnectivity :: bool
  enableLogging :: bool
  useWebWorker :: bool
  algorithm :: string
  enableCache :: bool
  chunkSize :: int
  useWebGL :: bool
  forceRecalculation :: bool
  enableNoiseReduction :: bool
  noiseThreshold :: "int option"

definition DEFAULT_CONFIG :: DetectionConfig where
  "DEFAULT_CONFIG =
     \<lparr> tolerance = 10, minSpriteSize = 4, use8WayConnectivity = False,
       enableLogging = False, useWebWorker = True, algorithm = ''floodFill'',
       enableCache = True, chunkSize = 1024 * 1024, useWebGL = False,
       forceRecalculation = False, enableNoiseReduction = True, noiseThreshold = Some 2 \<rparr>"

text \<open>
  The object a caller passes (\<^verbatim>\<open>Partial<DetectionConfig>\<close>): a field is \<open>None\<close> when the
  object has no such key.  \<open>mergeConfig\<close> is \<^verbatim>\<open>{ ...DEFAULT_CONFIG, ...config }\<close>.
\<close>

record PartialConfig =
  p_tolerance :: "int option"
  p_minSpriteSize :: "int option"
  p_use8WayConnectivity :: "bool option"
  p_enableLogging :: "bool option"
  p_useWebWorker :: "bool option"
  p_algorithm :: "string option"
  p_enableCache :: "bool option"
  p_chunkSize :: "int option"
  p_useWebGL :: "bool option"
  p_forceRecalculation :: "bool option"
  p_enableNoiseReduction :: "bool option"
  p_noiseThreshold :: "int option option"

definition emptyConfig :: PartialConfig where
  "emptyConfig =
     \<lparr> p_tolerance = None, p_minSpriteSize = None, p_use8WayConnectivity = None,
       p_enableLogging = None, p_useWebWorker = None, p_algorithm = None,
       p_enableCache = None, p_chunkSize = None, p_useWebGL = None,
       p_forceRecalculation = None, p_enableNoiseReduction = None,
       p_noiseThreshold = None \<rparr>"

definition orDefault :: "'a option \<Rightarrow> 'a \<Rightarrow> 'a" where
  "orDefault v d = (case v of None \<Rightarrow> d | Some x \<Rightarrow> x)"

definition mergeConfig :: "PartialConfig \<Rightarrow> DetectionConfig" where
  "mergeConfig c =
     \<lparr> tolerance = orDefault (p_tolerance c) (tolerance DEFAULT_CONFIG),
       minSpriteSize = orDefault (p_minSpriteSize c) (minSpriteSize DEFAULT_CONFIG),
       use8WayConnectivity =
         orDefault (p_use8WayConnectivity c) (use8WayConnectivity DEFAULT_CONFIG),
       enableLogging = orDefault (p_enableLogging c) (enableLogging DEFAULT_CONFIG),
       useWebWorker = orDefault (p_useWebWorker c) (useWebWorker DEFAULT_CONFIG),
       algorithm = orDefault (p_algorithm c) (algorithm DEFAULT_CONFIG),
       enableCache = orDefault (p_enableCache c) (enableCache DEFAULT_CONFIG),
       chunkSize = orDefault (p_chunkSize c) (chunkSize DEFAULT_CONFIG),
       useWebGL = orDefault (p_useWebGL c) (useWebGL DEFAULT_CONFIG),
       forceRecalculation =
         orDefault (p_forceRecalculation c) (forceRecalculation DEFAULT_CONFIG),
       enableNoiseReduction =
         orDefault (p_enableNoiseReduction c) (enableNoiseReduction DEFAULT_CONFIG),
       noiseThreshold = orDefault (p_noiseThreshold c) (noiseThreshold DEFAULT_CONFIG) \<rparr>"

text \<open>A complete configuration passed on as the \<^verbatim>\<open>config\<close> argument of an algorithm.\<close>

definition asPartial :: "DetectionConfig \<Rightarrow> PartialConfig" where
  "asPartial c =
     \<lparr> p_tolerance = Some (tolerance c), p_minSpriteSize = Some (minSpriteSize c),
       p_use8WayConnectivity = Some (use8WayConnectivity c),
       p_enableLogging = Some (enableLogging c), p_useWebWorker = Some (useWebWorker c),
       p_algorithm = Some (algorithm c), p_enableCache = Some (enableCache c),
       p_chunkSize = Some (chunkSize c), p_useWebGL = Some (useWebGL c),
       p_forceRecalculation = Some (forceRecalculation c),
       p_enableNoiseReduction = Some (enableNoiseReduction c),
       p_noiseThreshold = Some (noiseThreshold c) \<rparr>"

text \<open>
  An image element as the module reads it: \<^verbatim>\<open>naturalWidth\<close>, \<^verbatim>\<open>naturalHeight\<close>,
  \<^verbatim>\<open>complete\<close>, and the bytes that drawing it on a canvas of that size and calling
  \<^verbatim>\<open>getImageData(0, 0, w, h)\<close> yields.  An argument that is missing or not an
  \<^verbatim>\<open>HTMLImageElement\<close> is \<open>None\<close>.
\<close>

record image =
  naturalWidth :: int
  naturalHeight :: int
  complete :: bool
  pixels :: buffer

record rect =
  rx :: int
  ry :: int
  rw :: int
  rh :: int

text \<open>
  A detected frame \<^verbatim>\<open>{ id, name, rect, type }\<close>; the fields \<^verbatim>\<open>id\<close> and
  \<^verbatim>\<open>type\<close> are named \<open>frameId\<close> and \<open>frameType\<close> here.
\<close>

record frame =
  frameId :: nat
  name :: string
  rect :: rect
  frameType :: string

datatype error =
    InvalidImage
  | ImageNotLoaded
  | ToleranceOutOfRange
  | MinSpriteSizeTooSmall
  | ReduceOfEmptyArray
  | TypeError
  | CanvasException
  | FloodFillError error
  | WorkerError error
  | DetectionError error

definition validateInputs :: "image option \<Rightarrow> PartialConfig \<Rightarrow> error + image" where
  "validateInputs imageElement config =
     (case imageElement of
        None \<Rightarrow> Inl InvalidImage
      | Some img \<Rightarrow>
          if \<not> complete img then Inl ImageNotLoaded
          else if (case p_tolerance config of None \<Rightarrow> False | Some t \<Rightarrow> t < 0 \<or> t > 255)
          then Inl ToleranceOutOfRange
          else if (case p_minSpriteSize config of None \<Rightarrow> False | Some m \<Rightarrow> m < 1)
          then Inl MinSpriteSizeTooSmall
          else Inr img)"

text \<open>Decimal digits of a number, for the template string \<^verbatim>\<open>`sprite_${newId}`\<close>.\<close>

fun digits :: "nat \<Rightarrow> string" where
  "digits n =
     (if n < 10 then [''0123456789'' ! n]
      else digits (n div 10) @ [''0123456789'' ! (n mod 10)])"

definition mkFrame :: "nat \<Rightarrow> int \<Rightarrow> int \<Rightarrow> int \<Rightarrow> int \<Rightarrow> frame" where
  "mkFrame newId minX minY maxX maxY =
     \<lparr> frameId = newId, name = ''sprite_'' @ digits newId,
       rect = \<lparr> rx = minX, ry = minY, rw = maxX - minX + 1, rh = maxY - minY + 1 \<rparr>,
       frameType = ''simple'' \<rparr>"

subsection \<open>Background colour estimation (\<^verbatim>\<open>detectBackgroundColor\<close>)\<close>

text \<open>
  A sampled pixel is the array of four reads \<^verbatim>\<open>[data[i], data[i+1], data[i+2], data[i+3]]\<close>.
  Its key is \<^verbatim>\<open>color.join(',')\<close>, read back with \<^verbatim>\<open>key.split(',').map(Number)\<close>:
  a read of \<^verbatim>\<open>undefined\<close> joins as the empty string, which \<^verbatim>\<open>Number\<close> turns into 0.
  \<^verbatim>\<open>Math.abs(undefined - n) > tolerance\<close> is false.
\<close>

type_synonym sample = "int option \<times> int option \<times> int option \<times> int option"

definition pixelAt :: "buffer \<Rightarrow> int \<Rightarrow> sample" where
  "pixelAt data i = (rd data i, rd data (i + 1), rd data (i + 2), rd data (i + 3))"

definition numberOf :: "int option \<Rightarrow> int" where
  "numberOf v = (case v of None \<Rightarrow> 0 | Some n \<Rightarrow> n)"

definition keyColor :: "sample \<Rightarrow> color" where
  "keyColor c = (case c of (r, g, b, a) \<Rightarrow> (numberOf r, numberOf g, numberOf b, numberOf a))"

definition channelFar :: "int option \<Rightarrow> int \<Rightarrow> int \<Rightarrow> bool" where
  "channelFar c e tol = (case c of None \<Rightarrow> False | Some v \<Rightarrow> \<bar>v - e\<bar> > tol)"

definition colorsSimilar :: "sample \<Rightarrow> color \<Rightarrow> int \<Rightarrow> bool" where
  "colorsSimilar color1 color2 tol =
     (case color1 of (r1, g1, b1, a1) \<Rightarrow>
      case color2 of (r2, g2, b2, a2) \<Rightarrow>
        if channelFar r1 r2 tol then False
        else if channelFar g1 g2 tol then False
        else if channelFar b1 b2 tol then False
        else if channelFar a1 a2 tol then False
        else True)"

text \<open>The loop over \<open>x\<close> (top and bottom rows), stride \<^verbatim>\<open>Math.max(1, Math.floor(w / 50))\<close>.\<close>

function sampleTopBottom :: "buffer \<Rightarrow> int \<Rightarrow> int \<Rightarrow> int \<Rightarrow> sample list \<Rightarrow> sample list" where
  "sampleTopBottom data w h x borderPixels =
     (if x < w
      then sampleTopBottom data w h (x + max 1 (w div 50))
             (borderPixels @ [pixelAt data ((0 * w + x) * 4),
                              pixelAt data (((h - 1) * w + x) * 4)])
      else borderPixels)"
  by pat_completeness auto
termination
  by (relation "measure (\<lambda>(data, w, h, x, borderPixels). nat (w - x))") auto

declare sampleTopBottom.simps [simp del]

text \<open>The loop over \<open>y\<close> from 1 while \<open>y < h - 1\<close> (left and right columns).\<close>

function sampleLeftRight :: "buffer \<Rightarrow> int \<Rightarrow> int \<Rightarrow> int \<Rightarrow> sample list \<Rightarrow> sample list" where
  "sampleLeftRight data w h y borderPixels =
     (if y < h - 1
      then sampleLeftRight data w h (y + max 1 (h div 50))
             (borderPixels @ [pixelAt data ((y * w + 0) * 4),
                              pixelAt data ((y * w + (w - 1)) * 4)])
      else borderPixels)"
  by pat_completeness auto
termination
  by (relation "measure (\<lambda>(data, w, h, y, borderPixels). nat (h - 1 - y))") auto

declare sampleLeftRight.simps [simp del]

text \<open>
  \<^verbatim>\<open>colorCounts\<close> is an object with string keys, iterated in insertion order; it is the
  association list of the parsed keys with their counts.  \<open>countColor\<close> is the body of
  the \<^verbatim>\<open>forEach\<close>: the first similar key is incremented, else the colour's own key is
  added with count 1.
\<close>

fun countColor :: "(color \<times> nat) list \<Rightarrow> sample \<Rightarrow> (color \<times> nat) list" where
  "countColor [] c = [(keyColor c, 1)]"
| "countColor ((k, n) # colorCounts) c =
     (if colorsSimilar c k 5 then (k, n + 1) # colorCounts
      else (k, n) # countColor colorCounts c)"

text \<open>
  \<^verbatim>\<open>Object.keys(colorCounts).reduce((a, b) => colorCounts[a] > colorCounts[b] ? a : b)\<close>;
  \<^verbatim>\<open>reduce\<close> on an empty array without initial value throws.
\<close>

definition mostCommonKey :: "('k \<times> nat) list \<Rightarrow> error + 'k" where
  "mostCommonKey colorCounts =
     (case colorCounts of
        [] \<Rightarrow> Inl ReduceOfEmptyArray
      | e # es \<Rightarrow> Inr (fst (foldl (\<lambda>a b. if snd a > snd b then a else b) e es)))"

definition borderSamples :: "buffer \<Rightarrow> int \<Rightarrow> int \<Rightarrow> sample list" where
  "borderSamples data w h = sampleLeftRight data w h 1 (sampleTopBottom data w h 0 [])"

definition detectBackgroundColor :: "buffer \<Rightarrow> int \<Rightarrow> int \<Rightarrow> error + color" where
  "detectBackgroundColor data w h = mostCommonKey (foldl countColor [] (borderSamples data w h))"

text \<open>
  The copy inside the worker's source string: the four corners, exact-match buckets
  (\<^verbatim>\<open>colorCounts[key] = (colorCounts[key] || 0) + 1\<close>), the same \<^verbatim>\<open>reduce\<close>.
\<close>

fun countExact :: "(sample \<times> nat) list \<Rightarrow> sample \<Rightarrow> (sample \<times> nat) list" where
  "countExact [] c = [(c, 1)]"
| "countExact ((k, n) # colorCounts) c =
     (if k = c then (k, n + 1) # colorCounts else (k, n) # countExact colorCounts c)"

definition worker_detectBackgroundColor :: "buffer \<Rightarrow> int \<Rightarrow> int \<Rightarrow> error + color" where
  "worker_detectBackgroundColor data w h =
     (let corners = [(0, 0), (w - 1, 0), (0, h - 1), (w - 1, h - 1)];
          colors = map (\<lambda>(x, y). pixelAt data ((y * w + x) * 4)) corners
      in case mostCommonKey (foldl countExact [] colors) of
           Inl e \<Rightarrow> Inl e
         | Inr k \<Rightarrow> Inr (keyColor k))"

subsection \<open>Breadth-first fills\<close>

text \<open>
  \<open>visited\<close> is \<^verbatim>\<open>new Uint8Array(w * h)\<close>, whose cells are only ever set to 1 and
  tested for truth, at indices \<open>ny * w + nx\<close> of in-range coordinates; it is the
  set of the indices that hold 1.  The queue is the array of \<^verbatim>\<open>[x, y]\<close> pairs
  (\<^verbatim>\<open>shift\<close> takes the head, \<^verbatim>\<open>push\<close> appends).
\<close>

definition neighbors4 :: "(int \<times> int) list" where
  "neighbors4 = [(-1, 0), (1, 0), (0, -1), (0, 1)]"

definition neighbors8 :: "(int \<times> int) list" where
  "neighbors8 = [(-1, -1), (-1, 0), (-1, 1), (0, -1), (0, 1), (1, -1), (1, 0), (1, 1)]"

text \<open>
  The loop \<^verbatim>\<open>for (const [dx, dy] of neighbors)\<close> as \<^verbatim>\<open>countConnectedPixels\<close> and
  \<^verbatim>\<open>floodFill\<close> (in the module and in the worker) have it, with their counter.
\<close>

fun visitNeighbors ::
  "buffer \<Rightarrow> int \<Rightarrow> int \<Rightarrow> color \<Rightarrow> int \<Rightarrow> int \<Rightarrow> int \<Rightarrow> (int \<times> int) list \<Rightarrow>
   (int \<times> int) list \<times> int set \<times> int \<Rightarrow> (int \<times> int) list \<times> int set \<times> int" where
  "visitNeighbors data w h bgColor tol cx cy [] st = st"
| "visitNeighbors data w h bgColor tol cx cy ((dx, dy) # ns) (queue, visited, cnt) =
     (let nx = cx + dx; ny = cy + dy in
      if nx \<ge> 0 \<and> nx < w \<and> ny \<ge> 0 \<and> ny < h then
        (let ni = ny * w + nx in
         if ni \<notin> visited \<and> \<not> isBackgroundColor data (ni * 4) bgColor tol
         then visitNeighbors data w h bgColor tol cx cy ns
                (queue @ [(nx, ny)], insert ni visited, cnt + 1)
         else visitNeighbors data w h bgColor tol cx cy ns (queue, visited, cnt))
      else visitNeighbors data w h bgColor tol cx cy ns (queue, visited, cnt))"

text \<open>The same loop in \<^verbatim>\<open>markNoisePixels\<close>, which keeps no counter.\<close>

fun markNeighbors ::
  "buffer \<Rightarrow> int \<Rightarrow> int \<Rightarrow> color \<Rightarrow> int \<Rightarrow> int \<Rightarrow> int \<Rightarrow> (int \<times> int) list \<Rightarrow>
   (int \<times> int) list \<times> int set \<Rightarrow> (int \<times> int) list \<times> int set" where
  "markNeighbors data w h bgColor tol cx cy [] st = st"
| "markNeighbors data w h bgColor tol cx cy ((dx, dy) # ns) (queue, visited) =
     (let nx = cx + dx; ny = cy + dy in
      if nx \<ge> 0 \<and> nx < w \<and> ny \<ge> 0 \<and> ny < h then
        (let ni = ny * w + nx in
         if ni \<notin> visited \<and> \<not> isBackgroundColor data (ni * 4) bgColor tol
         then markNeighbors data w h bgColor tol cx cy ns
                (queue @ [(nx, ny)], insert ni visited)
         else markNeighbors data w h bgColor tol cx cy ns (queue, visited))
      else markNeighbors data w h bgColor tol cx cy ns (queue, visited))"

lemma index_in_range:
  fixes nx ny w h :: int
  assumes "0 \<le> nx" "nx < w" "0 \<le> ny" "ny < h"
  shows "0 \<le> ny * w + nx \<and> ny * w + nx < w * h"
proof -
  have "ny * w \<le> (h - 1) * w"
    using assms by (intro mult_right_mono) auto
  also have "(h - 1) * w = w * h - w" by (simp add: algebra_simps)
  finally have "ny * w + nx < w * h" using assms by simp
  moreover have "0 \<le> ny * w" using assms by simp
  ultimately show ?thesis using assms by simp
qed

lemma card_unvisited_insert:
  fixes n :: int
  assumes "0 \<le> ni" "ni < n" "ni \<notin> V"
  shows "Suc (card ({0..<n} - insert ni V)) = card ({0..<n} - V)"
proof -
  have "ni \<in> {0..<n} - V" using assms by simp
  moreover have "{0..<n} - insert ni V = ({0..<n} - V) - {ni}" by auto
  ultimately show ?thesis
    using card.remove [of "{0..<n} - V" ni] by simp
qed

lemma visitNeighbors_measure:
  "visitNeighbors data w h bgColor tol cx cy ns (q, V, c) = (q', V', c') \<Longrightarrow>
   length q' + card ({0..<w * h} - V') = length q + card ({0..<w * h} - V)"
proof (induction ns arbitrary: q V c)
  case Nil
  then show ?case by simp
next
  case (Cons n ns)
  obtain dx dy where n: "n = (dx, dy)" by (cases n)
  show ?case
  proof (cases "cx + dx \<ge> 0 \<and> cx + dx < w \<and> cy + dy \<ge> 0 \<and> cy + dy < h
      \<and> (cy + dy) * w + (cx + dx) \<notin> V
      \<and> \<not> isBackgroundColor data (((cy + dy) * w + (cx + dx)) * 4) bgColor tol")
    case True
    then have rng: "0 \<le> (cy + dy) * w + (cx + dx) \<and> (cy + dy) * w + (cx + dx) < w * h"
      by (intro index_in_range) auto
    from True Cons.prems n
    have "visitNeighbors data w h bgColor tol cx cy ns
            (q @ [(cx + dx, cy + dy)], insert ((cy + dy) * w + (cx + dx)) V, c + 1)
          = (q', V', c')"
      by (simp add: Let_def)
    from Cons.IH [OF this]
      card_unvisited_insert [of "(cy + dy) * w + (cx + dx)" "w * h" V] rng True
    show ?thesis by simp
  next
    case False
    with Cons.prems n
    have "visitNeighbors data w h bgColor tol cx cy ns (q, V, c) = (q', V', c')"
      by (auto simp add: Let_def split: if_splits)
    from Cons.IH [OF this] show ?thesis .
  qed
qed

lemma markNeighbors_visitNeighbors:
  "(case visitNeighbors data w h bgColor tol cx cy ns (q, V, c) of (q', V', c') \<Rightarrow> (q', V'))
   = markNeighbors data w h bgColor tol cx cy ns (q, V)"
proof (induction ns arbitrary: q V c)
  case Nil
  show ?case by simp
next
  case (Cons n ns)
  obtain dx dy where n: "n = (dx, dy)" by (cases n)
  show ?case
    unfolding n by (simp add: Let_def Cons.IH)
qed

lemma markNeighbors_measure:
  assumes "markNeighbors data w h bgColor tol cx cy ns (q, V) = (q', V')"
  shows "length q' + card ({0..<w * h} - V') = length q + card ({0..<w * h} - V)"
proof -
  obtain c' where "visitNeighbors data w h bgColor tol cx cy ns (q, V, 0) = (q', V', c')"
    using assms markNeighbors_visitNeighbors [of data w h bgColor tol cx cy ns q V 0]
    by (cases "visitNeighbors data w h bgColor tol cx cy ns (q, V, 0)") auto
  from visitNeighbors_measure [OF this] show ?thesis .
qed

text \<open>The \<^verbatim>\<open>while (queue.length > 0)\<close> loop of \<^verbatim>\<open>floodFill\<close>.\<close>

function floodLoop ::
  "buffer \<Rightarrow> int \<Rightarrow> int \<Rightarrow> color \<Rightarrow> int \<Rightarrow> (int \<times> int) list \<Rightarrow>
   (int \<times> int) list \<times> int set \<times> int \<times> int \<times> int \<times> int \<times> int \<Rightarrow>
   int set \<times> int \<times> int \<times> int \<times> int \<times> int" where
  "floodLoop data w h bgColor tol nbrs ([], visited, minX, minY, maxX, maxY, pixelCount) =
     (visited, minX, minY, maxX, maxY, pixelCount)"
| "floodLoop data w h bgColor tol nbrs
     ((cx, cy) # queue, visited, minX, minY, maxX, maxY, pixelCount) =
     (case visitNeighbors data w h bgColor tol cx cy nbrs (queue, visited, pixelCount) of
        (queue', visited', pixelCount') \<Rightarrow>
          floodLoop data w h bgColor tol nbrs
            (queue', visited', min minX cx, min minY cy, max maxX cx, max maxY cy,
             pixelCount'))"
  by pat_completeness auto
termination
proof (relation "measure (\<lambda>(data, w, h, bgColor, tol, nbrs, queue, visited, rest).
          length queue + card ({0..<w * h} - visited))", goal_cases)
  case 1
  show ?case by simp
next
  case (2 data w h bgColor tol nbrs cx cy queue visited minX minY maxX maxY pixelCount
      x1 x2 x1a x2a)
  then have "visitNeighbors data w h bgColor tol cx cy nbrs (queue, visited, pixelCount)
      = (x1, x1a, x2a)"
    by simp
  from visitNeighbors_measure [OF this] show ?case by simp
qed

text \<open>
  \<^verbatim>\<open>floodFill(startX, startY)\<close>, the helper of \<^verbatim>\<open>floodFillAlgorithm\<close> and, with the
  same text, of the worker.  It returns \<^verbatim>\<open>{ minX, minY, maxX, maxY, pixelCount }\<close>; the
  updated \<open>visited\<close> array is returned with it.
\<close>

definition floodFill ::
  "buffer \<Rightarrow> int \<Rightarrow> int \<Rightarrow> color \<Rightarrow> DetectionConfig \<Rightarrow> int set \<Rightarrow> int \<Rightarrow> int \<Rightarrow>
   int set \<times> int \<times> int \<times> int \<times> int \<times> int" where
  "floodFill data w h bgColor config visited startX startY =
     floodLoop data w h bgColor (tolerance config)
       (if use8WayConnectivity config then neighbors8 else neighbors4)
       ([(startX, startY)], insert (startY * w + startX) visited,
        startX, startY, startX, startY, 1)"

text \<open>\<^verbatim>\<open>countConnectedPixels\<close>: a fresh \<open>visited\<close>, 4-way neighbours.\<close>

function countLoop ::
  "buffer \<Rightarrow> int \<Rightarrow> int \<Rightarrow> color \<Rightarrow> int \<Rightarrow> (int \<times> int) list \<times> int set \<times> int \<Rightarrow> int" where
  "countLoop data w h bgColor tol ([], visited, cnt) = cnt"
| "countLoop data w h bgColor tol ((cx, cy) # queue, visited, cnt) =
     countLoop data w h bgColor tol
       (visitNeighbors data w h bgColor tol cx cy neighbors4 (queue, visited, cnt))"
  by pat_completeness auto
termination
proof (relation "measure (\<lambda>(data, w, h, bgColor, tol, queue, visited, cnt).
          length queue + card ({0..<w * h} - visited))", goal_cases)
  case 1
  show ?case by simp
next
  case (2 data w h bgColor tol cx cy queue visited cnt)
  obtain q' V' c' where
    "visitNeighbors data w h bgColor tol cx cy neighbors4 (queue, visited, cnt) = (q', V', c')"
    by (cases "visitNeighbors data w h bgColor tol cx cy neighbors4 (queue, visited, cnt)")
  from visitNeighbors_measure [OF this] this show ?case by simp
qed

definition countConnectedPixels ::
  "int \<Rightarrow> int \<Rightarrow> int \<Rightarrow> int \<Rightarrow> buffer \<Rightarrow> color \<Rightarrow> int \<Rightarrow> int" where
  "countConnectedPixels startX startY w h data bgColor tol =
     countLoop data w h bgColor tol ([(startX, startY)], {startY * w + startX}, 1)"

text \<open>
  \<^verbatim>\<open>markNoisePixels\<close>: each dequeued pixel is overwritten with \<open>bgColor\<close>, then its
  neighbours are tested on the buffer as it then is.  The buffer and the caller's
  \<open>visited\<close> array are both mutated; both are returned.
\<close>

definition paint :: "buffer \<Rightarrow> int \<Rightarrow> color \<Rightarrow> buffer" where
  "paint data index bgColor =
     (case bgColor of (bgR, bgG, bgB, bgA) \<Rightarrow>
        wr (wr (wr (wr data index bgR) (index + 1) bgG) (index + 2) bgB) (index + 3) bgA)"

lemma length_wr [simp]: "length (wr data i v) = length data"
  by (simp add: wr_def)

lemma length_paint [simp]: "length (paint data index bgColor) = length data"
  by (cases bgColor) (simp add: paint_def)

function markLoop ::
  "int \<Rightarrow> int \<Rightarrow> color \<Rightarrow> int \<Rightarrow> (int \<times> int) list \<times> int set \<times> buffer \<Rightarrow> buffer \<times> int set" where
  "markLoop w h bgColor tol ([], visited, data) = (data, visited)"
| "markLoop w h bgColor tol ((cx, cy) # queue, visited, data) =
     (let index = (cy * w + cx) * 4;
          data' = paint data index bgColor
      in case markNeighbors data' w h bgColor tol cx cy neighbors4 (queue, visited) of
           (queue', visited') \<Rightarrow> markLoop w h bgColor tol (queue', visited', data'))"
  by pat_completeness auto
termination
proof (relation "measure (\<lambda>(w, h, bgColor, tol, queue, visited, data).
          length queue + card ({0..<w * h} - visited))", goal_cases)
  case 1
  show ?case by simp
next
  case (2 w h bgColor tol cx cy queue visited data index data' x1 x2)
  then have "markNeighbors data' w h bgColor tol cx cy neighbors4 (queue, visited) = (x1, x2)"
    by simp
  from markNeighbors_measure [OF this] show ?case by simp
qed

definition markNoisePixels ::
  "int \<Rightarrow> int \<Rightarrow> int \<Rightarrow> int \<Rightarrow> buffer \<Rightarrow> int set \<Rightarrow> color \<Rightarrow> int \<Rightarrow> buffer \<times> int set" where
  "markNoisePixels startX startY w h data visited bgColor tol =
     markLoop w h bgColor tol ([(startX, startY)], insert (startY * w + startX) visited, data)"

subsection \<open>Noise reduction (\<^verbatim>\<open>applyNoiseReduction\<close>)\<close>

text \<open>\<^verbatim>\<open>for (let i = 0; i < n; i++) body\<close>, the body not assigning \<open>i\<close>.\<close>

definition forRange :: "int \<Rightarrow> (int \<Rightarrow> 's \<Rightarrow> 's) \<Rightarrow> 's \<Rightarrow> 's" where
  "forRange n body st = foldl (\<lambda>s i. body i s) st [0..n - 1]"

text \<open>\<^verbatim>\<open>config.noiseThreshold || 2\<close>: 0 and \<^verbatim>\<open>undefined\<close> are falsy.\<close>

definition thresholdOf :: "DetectionConfig \<Rightarrow> int" where
  "thresholdOf config =
     (case noiseThreshold config of None \<Rightarrow> 2 | Some n \<Rightarrow> if n = 0 then 2 else n)"

definition noiseStep ::
  "int \<Rightarrow> int \<Rightarrow> color \<Rightarrow> int \<Rightarrow> int \<Rightarrow> int \<Rightarrow> int \<Rightarrow> buffer \<times> int set \<Rightarrow> buffer \<times> int set" where
  "noiseStep w h bgColor tol threshold y x st =
     (case st of (data, visited) \<Rightarrow>
        (let i = y * w + x in
         if i \<in> visited \<or> isBackgroundColor data (i * 4) bgColor tol then (data, visited)
         else
           (let connectedPixels = countConnectedPixels x y w h data bgColor tol in
            if connectedPixels \<le> threshold
            then markNoisePixels x y w h data visited bgColor tol
            else (data, visited))))"

definition applyNoiseReduction ::
  "buffer \<Rightarrow> int \<Rightarrow> int \<Rightarrow> color \<Rightarrow> DetectionConfig \<Rightarrow> buffer" where
  "applyNoiseReduction data w h bgColor config =
     (if \<not> enableNoiseReduction config then data
      else
        (let threshold = thresholdOf config in
         fst (forRange h
                (\<lambda>y. forRange w (noiseStep w h bgColor (tolerance config) threshold y))
                (data, {}))))"

subsection \<open>The detector (\<^verbatim>\<open>floodFillAlgorithm\<close>)\<close>

text \<open>
  The body of the scan \<^verbatim>\<open>for y ... for x ...\<close>; its state is \<open>visited\<close>,
  \<open>newFrames\<close> and \<open>processedPixels\<close>.
\<close>

definition scanStep ::
  "buffer \<Rightarrow> int \<Rightarrow> int \<Rightarrow> color \<Rightarrow> DetectionConfig \<Rightarrow> int \<Rightarrow> int \<Rightarrow>
   int set \<times> frame list \<times> int \<Rightarrow> int set \<times> frame list \<times> int" where
  "scanStep data w h bgColor config y x st =
     (case st of (visited, newFrames, processedPixels) \<Rightarrow>
        (let i = y * w + x in
         if i \<in> visited \<or> isBackgroundColor data (i * 4) bgColor (tolerance config)
         then (visited, newFrames, processedPixels)
         else
           (case floodFill data w h bgColor config visited x y of
              (visited', minX, minY, maxX, maxY, pixelCount) \<Rightarrow>
                (visited',
                 (if pixelCount \<ge> minSpriteSize config
                  then newFrames @ [mkFrame (length newFrames) minX minY maxX maxY]
                  else newFrames),
                 processedPixels + pixelCount))))"

definition scanImage ::
  "buffer \<Rightarrow> int \<Rightarrow> int \<Rightarrow> color \<Rightarrow> DetectionConfig \<Rightarrow> int set \<times> frame list \<times> int" where
  "scanImage data w h bgColor config =
     forRange h (\<lambda>y. forRange w (scanStep data w h bgColor config y)) ({}, [], 0)"

text \<open>
  The promise of \<^verbatim>\<open>floodFillAlgorithm\<close> resolves with the frames (\<open>Inr\<close>) or rejects
  with the error caught by its \<^verbatim>\<open>try\<close> (\<open>Inl\<close>, wrapped as
  \<^verbatim>\<open>Error en deteccion floodFill: ...\<close>).
\<close>

definition floodFillAlgorithm :: "image option \<Rightarrow> PartialConfig \<Rightarrow> error + frame list" where
  "floodFillAlgorithm imageElement config =
     (case validateInputs imageElement config of
        Inl e \<Rightarrow> Inl (FloodFillError e)
      | Inr img \<Rightarrow>
          (let finalConfig = mergeConfig config;
               w = naturalWidth img;
               h = naturalHeight img
           in if w = 0 \<or> h = 0 then Inr []
              else
                (let data = pixels img in
                 case detectBackgroundColor data w h of
                   Inl e \<Rightarrow> Inl (FloodFillError e)
                 | Inr bgColor \<Rightarrow>
                     (let data' =
                            (if enableNoiseReduction finalConfig
                             then applyNoiseReduction data w h bgColor finalConfig
                             else data)
                      in Inr (fst (snd (scanImage data' w h bgColor finalConfig)))))))"

definition contourAlgorithm :: "image option \<Rightarrow> PartialConfig \<Rightarrow> error + frame list" where
  "contourAlgorithm imageElement config = floodFillAlgorithm imageElement config"

definition aiDetectionAlgorithm :: "image option \<Rightarrow> PartialConfig \<Rightarrow> error + frame list" where
  "aiDetectionAlgorithm imageElement config = floodFillAlgorithm imageElement config"

text \<open>
  The table \<^verbatim>\<open>detectionAlgorithms\<close> is an object literal, so reading a property of it
  finds its three own keys and, besides them, what every object inherits from
  \<^verbatim>\<open>Object.prototype\<close>.  A property read is a strategy (one of the three functions), an
  inherited value (a function or object that is no strategy, and not falsy), or
  \<^verbatim>\<open>undefined\<close>.
\<close>

datatype property =
    Strategy "image option \<Rightarrow> PartialConfig \<Rightarrow> error + frame list"
  | Inherited
  | Undefined

definition objectPrototypeKeys :: "string list" where
  "objectPrototypeKeys =
     [''constructor'', ''__defineGetter__'', ''__defineSetter__'', ''hasOwnProperty'',
      ''__lookupGetter__'', ''__lookupSetter__'', ''isPrototypeOf'', ''propertyIsEnumerable'',
      ''toString'', ''valueOf'', ''__proto__'', ''toLocaleString'']"

definition detectionAlgorithms :: "string \<Rightarrow> property" where
  "detectionAlgorithms k =
     (if k = ''floodFill'' then Strategy floodFillAlgorithm
      else if k = ''contour'' then Strategy contourAlgorithm
      else if k = ''ai'' then Strategy aiDetectionAlgorithm
      else if k \<in> set objectPrototypeKeys then Inherited
      else Undefined)"

text \<open>\<^verbatim>\<open>detectionAlgorithms[config.algorithm] || detectionAlgorithms.floodFill\<close>.\<close>

definition selectAlgorithm :: "DetectionConfig \<Rightarrow> property" where
  "selectAlgorithm config =
     (case detectionAlgorithms (algorithm config) of
        Undefined \<Rightarrow> detectionAlgorithms ''floodFill''
      | a \<Rightarrow> a)"

text \<open>
  The expression \<^verbatim>\<open>algorithm(imageElement, config).then(...)\<close>.  A strategy returns its
  promise (\<open>Inr\<close>, holding what the promise settles with).  An inherited value makes the
  expression throw a \<^verbatim>\<open>TypeError\<close> (\<open>Inl\<close>): \<^verbatim>\<open>__proto__\<close> is not a function,
  \<^verbatim>\<open>constructor\<close> and \<^verbatim>\<open>toString\<close> return a value without \<^verbatim>\<open>then\<close>, and the
  other methods of \<^verbatim>\<open>Object.prototype\<close> throw when called without a receiver.
\<close>

definition callAlgorithm ::
  "property \<Rightarrow> image option \<Rightarrow> PartialConfig \<Rightarrow> error + (error + frame list)" where
  "callAlgorithm a imageElement config =
     (case a of
        Strategy f \<Rightarrow> Inr (f imageElement config)
      | Inherited \<Rightarrow> Inl TypeError
      | Undefined \<Rightarrow> Inl TypeError)"

subsection \<open>The worker's copy (\<^verbatim>\<open>processImageData\<close> in the worker source string)\<close>

text \<open>
  The worker scans with the same loop body and the same \<^verbatim>\<open>floodFill\<close> text, on the
  background colour of its own \<^verbatim>\<open>detectBackgroundColor\<close>; it has no noise reduction
  and no check of the dimensions.
\<close>

definition worker_processImageData ::
  "buffer \<Rightarrow> int \<Rightarrow> int \<Rightarrow> DetectionConfig \<Rightarrow> error + frame list" where
  "worker_processImageData data w h config =
     (case worker_detectBackgroundColor data w h of
        Inl e \<Rightarrow> Inl e
      | Inr bgColor \<Rightarrow> Inr (fst (snd (scanImage data w h bgColor config))))"

subsection \<open>The cache and the orchestrator (\<^verbatim>\<open>detectSpritesFromImage\<close>)\<close>

text \<open>
  The key string \<^verbatim>\<open>`${w}x${h}_${JSON.stringify(criticalConfig)}`\<close> is the tuple of the
  values it prints.  \<^verbatim>\<open>detectionCache\<close> is a \<^verbatim>\<open>Map\<close>: an association list in insertion
  order, where \<^verbatim>\<open>set\<close> on a present key replaces the value in place.
\<close>

type_synonym cacheKey = "int \<times> int \<times> int \<times> int \<times> bool \<times> string"
type_synonym detectionCache = "(cacheKey \<times> frame list) list"

definition CACHE_MAX_SIZE :: nat where
  "CACHE_MAX_SIZE = 10"

definition getCacheKey :: "image \<Rightarrow> DetectionConfig \<Rightarrow> cacheKey" where
  "getCacheKey imageElement config =
     (naturalWidth imageElement, naturalHeight imageElement, tolerance config,
      minSpriteSize config, use8WayConnectivity config, algorithm config)"

definition cacheHas :: "detectionCache \<Rightarrow> cacheKey \<Rightarrow> bool" where
  "cacheHas cache k = (k \<in> set (map fst cache))"

definition cacheGet :: "detectionCache \<Rightarrow> cacheKey \<Rightarrow> frame list option" where
  "cacheGet cache k = map_of cache k"

definition cacheSet :: "detectionCache \<Rightarrow> cacheKey \<Rightarrow> frame list \<Rightarrow> detectionCache" where
  "cacheSet cache k v =
     (if cacheHas cache k then map (\<lambda>e. if fst e = k then (k, v) else e) cache
      else cache @ [(k, v)])"

definition cacheDelete :: "detectionCache \<Rightarrow> cacheKey \<Rightarrow> detectionCache" where
  "cacheDelete cache k = filter (\<lambda>e. fst e \<noteq> k) cache"

definition manageCacheSize :: "detectionCache \<Rightarrow> detectionCache" where
  "manageCacheSize cache =
     (if length cache > CACHE_MAX_SIZE
      then (case cache of [] \<Rightarrow> cache | e # es \<Rightarrow> cacheDelete cache (fst e))
      else cache)"

text \<open>
  What the browser offers: whether \<^verbatim>\<open>window.Worker\<close> exists, and whether
  \<^verbatim>\<open>createDetectionWorker\<close> returns a worker (it returns \<^verbatim>\<open>null\<close> when constructing
  the worker throws).
\<close>

record environment =
  windowWorker :: bool
  workerStarts :: bool

text \<open>
  Which branch settled the promise of \<^verbatim>\<open>detectSpritesFromImage\<close>: its \<^verbatim>\<open>catch\<close>
  (\<open>Rejected\<close>), the cache check, the worker's answer, the fallback without a worker, or
  the algorithm run in the main thread.
\<close>

datatype route = Rejected | CacheHit | WorkerRun | FallbackRun | InThreadRun

definition storeResult ::
  "detectionCache \<Rightarrow> image \<Rightarrow> DetectionConfig \<Rightarrow> frame list \<Rightarrow> detectionCache" where
  "storeResult cache img config result =
     (if enableCache config
      then manageCacheSize (cacheSet cache (getCacheKey img config) result)
      else cache)"

text \<open>
  The canvas read of \<^verbatim>\<open>processWithWebWorker\<close>: a canvas of the size of the image,
  \<^verbatim>\<open>drawImage\<close>, then \<^verbatim>\<open>getImageData(0, 0, width, height)\<close>.  For a width or height of 0
  the read throws (\<^verbatim>\<open>getImageData\<close> throws \<^verbatim>\<open>IndexSizeError\<close> for an empty rectangle, and
  \<^verbatim>\<open>drawImage\<close> throws before it on a broken image); otherwise it yields the bytes of the
  image.
\<close>

definition canvasImageData :: "image \<Rightarrow> error + buffer" where
  "canvasImageData img =
     (if naturalWidth img = 0 \<or> naturalHeight img = 0 then Inl CanvasException
      else Inr (pixels img))"

text \<open>
  \<^verbatim>\<open>processWithWebWorker\<close> either throws (\<open>Inl\<close>: it has no \<^verbatim>\<open>try\<close> of its own, so the
  exception reaches the \<^verbatim>\<open>catch\<close> of its caller) or settles the caller's promise
  (\<open>Inr\<close>).  Without a worker it falls back to the selected algorithm and passes its
  outcome on, storing nothing.  With a worker it reads the canvas, without a check of
  the dimensions, and posts the bytes; the worker's answer is stored and resolved.
\<close>

definition processWithWebWorker ::
  "environment \<Rightarrow> detectionCache \<Rightarrow> image \<Rightarrow> DetectionConfig \<Rightarrow>
   error + (error + frame list) \<times> detectionCache \<times> route" where
  "processWithWebWorker env cache img config =
     (if \<not> workerStarts env
      then
        (case callAlgorithm (selectAlgorithm config) (Some img) (asPartial config) of
           Inl e \<Rightarrow> Inl e
         | Inr outcome \<Rightarrow> Inr (outcome, cache, FallbackRun))
      else
        (case canvasImageData img of
           Inl e \<Rightarrow> Inl e
         | Inr data \<Rightarrow>
             (case worker_processImageData data (naturalWidth img) (naturalHeight img) config of
                Inl e \<Rightarrow> Inr (Inl (WorkerError e), cache, WorkerRun)
              | Inr frames \<Rightarrow>
                  Inr (Inr frames, storeResult cache img config frames, WorkerRun))))"

text \<open>
  The cache check: under \<^verbatim>\<open>enableCache && !forceRecalculation\<close>, \<^verbatim>\<open>has(cacheKey)\<close>
  followed by \<^verbatim>\<open>get(cacheKey)\<close>.
\<close>

definition cacheLookup :: "detectionCache \<Rightarrow> image \<Rightarrow> DetectionConfig \<Rightarrow> frame list option" where
  "cacheLookup cache img config =
     (if enableCache config \<and> \<not> forceRecalculation config
         \<and> cacheHas cache (getCacheKey img config)
      then cacheGet cache (getCacheKey img config)
      else None)"

text \<open>
  The body of \<^verbatim>\<open>detectSpritesFromImage\<close> runs inside one \<^verbatim>\<open>try\<close>: whatever is thrown
  in it, by \<^verbatim>\<open>validateInputs\<close>, by \<^verbatim>\<open>processWithWebWorker\<close> or by calling the selected
  algorithm, is caught and the promise rejected with the wrapped error (route
  \<open>Rejected\<close>).  A rejection of the algorithm's own promise is passed on unwrapped.
\<close>

definition detectSpritesFromImage ::
  "environment \<Rightarrow> detectionCache \<Rightarrow> image option \<Rightarrow> PartialConfig \<Rightarrow>
   (error + frame list) \<times> detectionCache \<times> route" where
  "detectSpritesFromImage env cache imageElement config =
     (case validateInputs imageElement config of
        Inl e \<Rightarrow> (Inl (DetectionError e), cache, Rejected)
      | Inr img \<Rightarrow>
          (let finalConfig = mergeConfig config in
           case cacheLookup cache img finalConfig of
             Some result \<Rightarrow> (Inr result, cache, CacheHit)
           | None \<Rightarrow>
               (let selected = selectAlgorithm finalConfig in
                if useWebWorker finalConfig \<and> windowWorker env
                then
                  (case processWithWebWorker env cache img finalConfig of
                     Inl e \<Rightarrow> (Inl (DetectionError e), cache, Rejected)
                   | Inr settled \<Rightarrow> settled)
                else
                  (case callAlgorithm selected imageElement (asPartial finalConfig) of
                     Inl e \<Rightarrow> (Inl (DetectionError e), cache, Rejected)
                   | Inr (Inl e) \<Rightarrow> (Inl e, cache, InThreadRun)
                   | Inr (Inr result) \<Rightarrow>
                       (Inr result, storeResult cache img finalConfig result, InThreadRun)))))"

section \<open>Background membership is the three ordered rules\<close>

lemma rd_in_range:
  "0 \<le> i \<Longrightarrow> i < int (length data) \<Longrightarrow> rd data i = Some (uint (data ! nat i))"
  by (simp add: rd_def)

lemma rd_Some_bounds: "rd data i = Some v \<Longrightarrow> 0 \<le> v \<and> v < 256"
proof -
  assume "rd data i = Some v"
  then have v: "v = uint (data ! nat i)"
    by (simp add: rd_def split: if_splits)
  have "uint (data ! nat i) < 2 ^ LENGTH(8)"
    by (rule uint_lt2p)
  with v show ?thesis by simp
qed

text \<open>
  Claim C1.  For a pixel stored in the buffer at \<open>index\<close> with channels \<open>(r, g, b, a)\<close>,
  \<open>isBackgroundColor\<close> is decided by three rules in order: alpha 0 is background;
  otherwise, when the reference colour's alpha is below 255 and the pixel's alpha is not
  zero, the pixel is not background; otherwise the pixel is background exactly when the
  Manhattan distance of the RGB channels (alpha excluded) is at most the tol.
\<close>

theorem isBackgroundColor_rules:
  assumes "rd data index = Some r" and "rd data (index + 1) = Some g"
    and "rd data (index + 2) = Some b" and "rd data (index + 3) = Some a"
  shows "isBackgroundColor data index (bgR, bgG, bgB, bgA) tol =
           (if a = 0 then True
            else if bgA < 255 \<and> a \<noteq> 0 then False
            else \<bar>r - bgR\<bar> + \<bar>g - bgG\<bar> + \<bar>b - bgB\<bar> \<le> tol)"
proof -
  from rd_Some_bounds [OF assms(4)] have "0 \<le> a" by simp
  then have "(a > 0) = (a \<noteq> 0)" by arith
  with assms show ?thesis
    by (simp add: isBackgroundColor_def)
qed

theorem isBackgroundColor_rules_witness:
  "isBackgroundColor [10, 20, 30, 255, 12, 20, 30, 255] 4 (10, 20, 30, 255) 2
   \<and> \<not> isBackgroundColor [10, 20, 30, 255, 12, 20, 30, 255] 4 (10, 20, 30, 255) 1
   \<and> \<not> isBackgroundColor [10, 20, 30, 255, 12, 20, 30, 255] 4 (12, 20, 30, 254) 255
   \<and> isBackgroundColor [10, 20, 30, 255, 99, 98, 97, 0] 4 (10, 20, 30, 254) 0"
proof -
  let ?d = "[10, 20, 30, 255, 12, 20, 30, 255] :: buffer"
  let ?e = "[10, 20, 30, 255, 99, 98, 97, 0] :: buffer"
  have d: "rd ?d 4 = Some 12" "rd ?d (4 + 1) = Some 20" "rd ?d (4 + 2) = Some 30"
    "rd ?d (4 + 3) = Some 255"
    by (simp_all add: rd_def)
  have e: "rd ?e 4 = Some 99" "rd ?e (4 + 1) = Some 98" "rd ?e (4 + 2) = Some 97"
    "rd ?e (4 + 3) = Some 0"
    by (simp_all add: rd_def)
  show ?thesis
    using isBackgroundColor_rules [OF d, of 10 20 30 255 2]
      isBackgroundColor_rules [OF d, of 10 20 30 255 1]
      isBackgroundColor_rules [OF d, of 12 20 30 254 255]
      isBackgroundColor_rules [OF e, of 10 20 30 254 0]
    by simp
qed

section \<open>Connected regions and the breadth-first fills\<close>

text \<open>
  The reference notions the fills are measured against.  A pixel is the pair \<open>(x, y)\<close>;
  \<open>idx\<close> is its cell in \<open>visited\<close> (and a quarter of its offset in the buffer).  From
  a pixel, \<open>edges\<close> lead to the neighbours (by the offsets \<open>ns\<close>) that lie in the image,
  are not background and were not visited before the fill began (\<open>V\<close>); \<open>region\<close> is
  what is reachable from the start pixel along them.
\<close>

definition inGrid :: "int \<Rightarrow> int \<Rightarrow> int \<times> int \<Rightarrow> bool" where
  "inGrid w h p = (0 \<le> fst p \<and> fst p < w \<and> 0 \<le> snd p \<and> snd p < h)"

definition idx :: "int \<Rightarrow> int \<times> int \<Rightarrow> int" where
  "idx w p = snd p * w + fst p"

definition foreground :: "buffer \<Rightarrow> int \<Rightarrow> color \<Rightarrow> int \<Rightarrow> int \<times> int \<Rightarrow> bool" where
  "foreground data w bgColor tol p = (\<not> isBackgroundColor data (idx w p * 4) bgColor tol)"

definition shifted :: "(int \<times> int) list \<Rightarrow> int \<times> int \<Rightarrow> (int \<times> int) set" where
  "shifted ns p = (\<lambda>d. (fst p + fst d, snd p + snd d)) ` set ns"

definition edges ::
  "buffer \<Rightarrow> int \<Rightarrow> int \<Rightarrow> color \<Rightarrow> int \<Rightarrow> (int \<times> int) list \<Rightarrow> int set \<Rightarrow>
   ((int \<times> int) \<times> (int \<times> int)) set" where
  "edges data w h bgColor tol ns V =
     {(p, q). q \<in> shifted ns p \<and> inGrid w h q \<and> idx w q \<notin> V \<and> foreground data w bgColor tol q}"

definition region ::
  "buffer \<Rightarrow> int \<Rightarrow> int \<Rightarrow> color \<Rightarrow> int \<Rightarrow> (int \<times> int) list \<Rightarrow> int set \<Rightarrow> int \<times> int \<Rightarrow>
   (int \<times> int) set" where
  "region data w h bgColor tol ns V s = {p. (s, p) \<in> (edges data w h bgColor tol ns V)\<^sup>*}"

lemma idx_inj:
  assumes "inGrid w h p" "inGrid w h q" "idx w p = idx w q"
  shows "p = q"
proof -
  have d: "\<And>x y. 0 \<le> x \<Longrightarrow> x < w \<Longrightarrow> (y * w + x) div w = y \<and> (y * w + x) mod w = x"
    by simp
  from assms d [of "fst p" "snd p"] d [of "fst q" "snd q"]
  have "snd p = snd q \<and> fst p = fst q"
    unfolding inGrid_def idx_def by metis
  then show ?thesis by (simp add: prod_eq_iff)
qed

lemma idx_range: "inGrid w h p \<Longrightarrow> 0 \<le> idx w p \<and> idx w p < w * h"
  unfolding inGrid_def idx_def by (rule index_in_range) auto

lemma finite_grid: "finite {p. inGrid w h p}"
proof -
  have "{p. inGrid w h p} \<subseteq> {0..<w} \<times> {0..<h}"
    by (auto simp: inGrid_def)
  then show ?thesis by (rule finite_subset) simp
qed

lemma visitNeighbors_new:
  "visitNeighbors data w h bgColor tol cx cy ns (q, V, c) = (q', V', c') \<Longrightarrow>
   \<exists>new. q' = q @ new \<and> V' = V \<union> idx w ` set new \<and> c' = c + int (length new)
     \<and> distinct new
     \<and> set new = {n \<in> shifted ns (cx, cy).
                    inGrid w h n \<and> idx w n \<notin> V \<and> foreground data w bgColor tol n}"
proof (induction ns arbitrary: q V c)
  case Nil
  then show ?case by (simp add: shifted_def)
next
  case (Cons d ns)
  obtain dx dy where d: "d = (dx, dy)" by (cases d)
  let ?n = "(cx + dx, cy + dy)"
  have sh: "shifted (d # ns) (cx, cy) = insert ?n (shifted ns (cx, cy))"
    by (simp add: shifted_def d)
  show ?case
  proof (cases "inGrid w h ?n \<and> idx w ?n \<notin> V \<and> foreground data w bgColor tol ?n")
    case True
    with Cons.prems
    have "visitNeighbors data w h bgColor tol cx cy ns
            (q @ [?n], insert (idx w ?n) V, c + 1) = (q', V', c')"
      by (simp add: d Let_def inGrid_def idx_def foreground_def)
    from Cons.IH [OF this] obtain new where new:
      "q' = (q @ [?n]) @ new" "V' = insert (idx w ?n) V \<union> idx w ` set new"
      "c' = c + 1 + int (length new)" "distinct new"
      "set new = {n \<in> shifted ns (cx, cy).
          inGrid w h n \<and> idx w n \<notin> insert (idx w ?n) V \<and> foreground data w bgColor tol n}"
      by blast
    have "set (?n # new) = {n \<in> shifted (d # ns) (cx, cy).
          inGrid w h n \<and> idx w n \<notin> V \<and> foreground data w bgColor tol n}"
      using True new(5) idx_inj [of w h _ ?n] unfolding sh by auto
    moreover have "distinct (?n # new)" using new(4,5) by auto
    moreover have "q' = q @ (?n # new)" using new(1) by simp
    moreover have "V' = V \<union> idx w ` set (?n # new)" using new(2) by auto
    moreover have "c' = c + int (length (?n # new))" using new(3) by simp
    ultimately show ?thesis by blast
  next
    case False
    with Cons.prems
    have "visitNeighbors data w h bgColor tol cx cy ns (q, V, c) = (q', V', c')"
      by (auto simp add: d Let_def inGrid_def idx_def foreground_def split: if_splits)
    from Cons.IH [OF this] obtain new where new:
      "q' = q @ new" "V' = V \<union> idx w ` set new"
      "c' = c + int (length new)" "distinct new"
      "set new = {n \<in> shifted ns (cx, cy).
          inGrid w h n \<and> idx w n \<notin> V \<and> foreground data w bgColor tol n}"
      by blast
    have "set new = {n \<in> shifted (d # ns) (cx, cy).
          inGrid w h n \<and> idx w n \<notin> V \<and> foreground data w bgColor tol n}"
      using False new(5) unfolding sh by auto
    with new show ?thesis by blast
  qed
qed


definition bfsInv ::
  "buffer \<Rightarrow> int \<Rightarrow> int \<Rightarrow> color \<Rightarrow> int \<Rightarrow> (int \<times> int) list \<Rightarrow> int set \<Rightarrow> int \<times> int \<Rightarrow>
   (int \<times> int) set \<Rightarrow>
   (int \<times> int) list \<times> int set \<times> int \<times> int \<times> int \<times> int \<times> int \<Rightarrow> bool" where
  "bfsInv data w h bgColor tol ns V0 s S st =
     (case st of (queue, V, minX, minY, maxX, maxY, cnt) \<Rightarrow>
        inGrid w h s \<and> idx w s \<notin> V0
        \<and> V = V0 \<union> idx w ` S \<and> s \<in> S \<and> S \<subseteq> region data w h bgColor tol ns V0 s
        \<and> set queue \<subseteq> S \<and> distinct queue \<and> cnt = int (card S)
        \<and> (\<forall>p \<in> S - set queue. \<forall>q. (p, q) \<in> edges data w h bgColor tol ns V0 \<longrightarrow> q \<in> S)
        \<and> minX = Min (fst ` insert s (S - set queue))
        \<and> minY = Min (snd ` insert s (S - set queue))
        \<and> maxX = Max (fst ` insert s (S - set queue))
        \<and> maxY = Max (snd ` insert s (S - set queue)))"

lemma region_grid:
  assumes "inGrid w h s" "p \<in> region data w h bgColor tol ns V s"
  shows "inGrid w h p"
proof -
  from assms(2) have "(s, p) \<in> (edges data w h bgColor tol ns V)\<^sup>*"
    by (simp add: region_def)
  then show ?thesis
    using assms(1) by (induction rule: rtrancl_induct) (auto simp: edges_def)
qed

lemma region_unvisited:
  assumes "idx w s \<notin> V" "p \<in> region data w h bgColor tol ns V s"
  shows "idx w p \<notin> V"
proof -
  from assms(2) have "(s, p) \<in> (edges data w h bgColor tol ns V)\<^sup>*"
    by (simp add: region_def)
  then show ?thesis
    using assms(1) by (induction rule: rtrancl_induct) (auto simp: edges_def)
qed

lemma finite_region: "inGrid w h s \<Longrightarrow> finite (region data w h bgColor tol ns V s)"
  by (rule finite_subset [OF _ finite_grid [of w h]]) (auto dest: region_grid)

lemma region_step:
  "p \<in> region data w h bgColor tol ns V s \<Longrightarrow> (p, q) \<in> edges data w h bgColor tol ns V \<Longrightarrow>
   q \<in> region data w h bgColor tol ns V s"
  by (auto simp: region_def intro: rtrancl_into_rtrancl)

lemma region_closed_subset:
  assumes "s \<in> S" "\<forall>p \<in> S. \<forall>q. (p, q) \<in> edges data w h bgColor tol ns V \<longrightarrow> q \<in> S"
  shows "region data w h bgColor tol ns V s \<subseteq> S"
proof
  fix p assume "p \<in> region data w h bgColor tol ns V s"
  then have "(s, p) \<in> (edges data w h bgColor tol ns V)\<^sup>*"
    by (simp add: region_def)
  then show "p \<in> S"
    using assms by (induction rule: rtrancl_induct) auto
qed

lemma bfsInv_final:
  assumes "bfsInv data w h bgColor tol ns V0 s S ([], V, minX, minY, maxX, maxY, cnt)"
  shows "(V, minX, minY, maxX, maxY, cnt) =
     (V0 \<union> idx w ` region data w h bgColor tol ns V0 s,
      Min (fst ` region data w h bgColor tol ns V0 s),
      Min (snd ` region data w h bgColor tol ns V0 s),
      Max (fst ` region data w h bgColor tol ns V0 s),
      Max (snd ` region data w h bgColor tol ns V0 s),
      int (card (region data w h bgColor tol ns V0 s)))"
proof -
  let ?R = "region data w h bgColor tol ns V0 s"
  from assms have a: "s \<in> S" "S \<subseteq> ?R"
    "\<forall>p \<in> S. \<forall>q. (p, q) \<in> edges data w h bgColor tol ns V0 \<longrightarrow> q \<in> S"
    by (auto simp: bfsInv_def)
  from region_closed_subset [OF a(1) a(3)] a(2) have S: "S = ?R" by auto
  then have "insert s (S - set []) = ?R" using a(1) by auto
  with assms S show ?thesis by (simp add: bfsInv_def)
qed

lemma bfsInv_step:
  assumes inv: "bfsInv data w h bgColor tol ns V0 s S
                  ((cx, cy) # queue, V, minX, minY, maxX, maxY, cnt)"
    and vn: "visitNeighbors data w h bgColor tol cx cy ns (queue, V, cnt) = (q', V', c')"
  shows "\<exists>S'. bfsInv data w h bgColor tol ns V0 s S'
                 (q', V', min minX cx, min minY cy, max maxX cx, max maxY cy, c')"
proof -
  let ?R = "region data w h bgColor tol ns V0 s"
  let ?E = "edges data w h bgColor tol ns V0"
  let ?p = "(cx, cy)"
  from inv have s: "inGrid w h s" "idx w s \<notin> V0" "s \<in> S"
    and V: "V = V0 \<union> idx w ` S" and SR: "S \<subseteq> ?R"
    and q: "set queue \<subseteq> S" "distinct queue" "?p \<in> S" "?p \<notin> set queue"
    and cnt: "cnt = int (card S)"
    and closed: "\<forall>p \<in> S - set (?p # queue). \<forall>q. (p, q) \<in> ?E \<longrightarrow> q \<in> S"
    and bb: "minX = Min (fst ` insert s (S - set (?p # queue)))"
      "minY = Min (snd ` insert s (S - set (?p # queue)))"
      "maxX = Max (fst ` insert s (S - set (?p # queue)))"
      "maxY = Max (snd ` insert s (S - set (?p # queue)))"
    by (auto simp: bfsInv_def)
  have finR: "finite ?R" using s(1) by (rule finite_region)
  then have finS: "finite S" using SR by (rule rev_finite_subset)
  have Sgrid: "\<And>p. p \<in> S \<Longrightarrow> inGrid w h p"
    using SR region_grid [OF s(1)] by blast
  have SV0: "\<And>p. p \<in> S \<Longrightarrow> idx w p \<notin> V0"
    using SR region_unvisited [OF s(2)] by blast
  from visitNeighbors_new [OF vn] obtain new where new:
    "q' = queue @ new" "V' = V \<union> idx w ` set new" "c' = cnt + int (length new)"
    "distinct new"
    "set new = {n \<in> shifted ns ?p.
        inGrid w h n \<and> idx w n \<notin> V \<and> foreground data w bgColor tol n}"
    by blast
  have newV: "\<And>n. n \<in> set new \<Longrightarrow> idx w n \<notin> V" using new(5) by auto
  have disj: "S \<inter> set new = {}" using newV V by auto
  have newE: "\<And>n. n \<in> set new \<Longrightarrow> (?p, n) \<in> ?E"
    using new(5) V by (auto simp: edges_def)
  let ?S' = "S \<union> set new"
  have 1: "V' = V0 \<union> idx w ` ?S'" using new(2) V by auto
  have 2: "?S' \<subseteq> ?R"
    using SR newE q(3) region_step [of ?p data w h bgColor tol ns V0 s] by blast
  have 3: "set q' \<subseteq> ?S'" using new(1) q(1) by auto
  have 4: "distinct q'" using new(1,4) q(1,2) disj by auto
  have "card ?S' = card S + card (set new)"
    using finS disj by (simp add: card_Un_disjoint)
  then have 5: "c' = int (card ?S')"
    using new(3,4) cnt by (simp add: distinct_card)
  have rest: "?S' - set q' = insert ?p (S - set (?p # queue))"
    using new(1) q disj by auto
  have 6: "\<forall>p \<in> ?S' - set q'. \<forall>q. (p, q) \<in> ?E \<longrightarrow> q \<in> ?S'"
  proof (intro ballI allI impI)
    fix p n assume p: "p \<in> ?S' - set q'" and e: "(p, n) \<in> ?E"
    show "n \<in> ?S'"
    proof (cases "p = ?p")
      case False
      with p rest have "p \<in> S - set (?p # queue)" by blast
      with closed e have "n \<in> S" by blast
      then show ?thesis by simp
    next
      case True
      from e have n: "n \<in> shifted ns p" "inGrid w h n" "idx w n \<notin> V0"
        "foreground data w bgColor tol n"
        by (simp_all add: edges_def)
      show ?thesis
      proof (cases "idx w n \<in> V")
        case True
        with V n(3) obtain m where m: "m \<in> S" "idx w m = idx w n" by auto
        from idx_inj [OF Sgrid [OF m(1)] n(2) m(2)] m(1) show ?thesis by simp
      next
        case False
        from n(1) True have "n \<in> shifted ns ?p" by simp
        with n(2,4) False have "n \<in> set new" unfolding new(5) by simp
        then show ?thesis by simp
      qed
    qed
  qed
  have fin: "finite (insert s (S - set (?p # queue)))" using finS by simp
  have ins: "insert s (?S' - set q') = insert ?p (insert s (S - set (?p # queue)))"
    using rest by auto
  have 7: "min minX cx = Min (fst ` insert s (?S' - set q'))"
    "min minY cy = Min (snd ` insert s (?S' - set q'))"
    "max maxX cx = Max (fst ` insert s (?S' - set q'))"
    "max maxY cy = Max (snd ` insert s (?S' - set q'))"
    unfolding ins bb using fin by (simp_all add: min.commute max.commute)
  show ?thesis
    using s 1 2 3 4 5 6 7 unfolding bfsInv_def by (intro exI [of _ ?S']) simp
qed

lemma floodLoop_region:
  "bfsInv data w h bgColor tol ns V0 s S st \<Longrightarrow>
   floodLoop data w h bgColor tol ns st =
     (V0 \<union> idx w ` region data w h bgColor tol ns V0 s,
      Min (fst ` region data w h bgColor tol ns V0 s),
      Min (snd ` region data w h bgColor tol ns V0 s),
      Max (fst ` region data w h bgColor tol ns V0 s),
      Max (snd ` region data w h bgColor tol ns V0 s),
      int (card (region data w h bgColor tol ns V0 s)))"
proof (induction data w h bgColor tol ns st arbitrary: S rule: floodLoop.induct)
  case (1 data w h bgColor tol nbrs visited minX minY maxX maxY pixelCount)
  from bfsInv_final [OF 1] show ?case by simp
next
  case (2 data w h bgColor tol nbrs cx cy queue visited minX minY maxX maxY pixelCount)
  obtain q' V' c' where
    vn: "visitNeighbors data w h bgColor tol cx cy nbrs (queue, visited, pixelCount) = (q', V', c')"
    by (cases "visitNeighbors data w h bgColor tol cx cy nbrs (queue, visited, pixelCount)")
  from bfsInv_step [OF "2.prems" vn] obtain S' where
    "bfsInv data w h bgColor tol nbrs V0 s S'
       (q', V', min minX cx, min minY cy, max maxX cx, max maxY cy, c')" ..
  from "2.IH" [OF vn [symmetric] refl this] vn show ?case by simp
qed

lemma bfsInv_start:
  assumes "inGrid w h (sx, sy)" "idx w (sx, sy) \<notin> V0"
  shows "bfsInv data w h bgColor tol ns V0 (sx, sy) {(sx, sy)}
           ([(sx, sy)], insert (sy * w + sx) V0, sx, sy, sx, sy, 1)"
  using assms by (simp add: bfsInv_def idx_def region_def)

lemma floodFill_region:
  assumes "inGrid w h (sx, sy)" "idx w (sx, sy) \<notin> V0"
  shows "floodFill data w h bgColor config V0 sx sy =
     (let R = region data w h bgColor (tolerance config)
                (if use8WayConnectivity config then neighbors8 else neighbors4) V0 (sx, sy)
      in (V0 \<union> idx w ` R, Min (fst ` R), Min (snd ` R), Max (fst ` R), Max (snd ` R),
          int (card R)))"
  unfolding floodFill_def Let_def
  by (rule floodLoop_region [OF bfsInv_start [OF assms]])

lemma countLoop_floodLoop:
  "countLoop data w h bgColor tol (q, V, c) =
   snd (snd (snd (snd (snd (floodLoop data w h bgColor tol neighbors4 (q, V, a, b, a', b', c))))))"
proof (induction data w h bgColor tol "(q, V, c)" arbitrary: q V c a b a' b' rule: countLoop.induct)
  case (1 data w h bgColor tol visited cnt)
  show ?case by simp
next
  case (2 data w h bgColor tol cx cy queue visited cnt)
  obtain q' V' c' where
    vn: "visitNeighbors data w h bgColor tol cx cy neighbors4 (queue, visited, cnt) = (q', V', c')"
    by (cases "visitNeighbors data w h bgColor tol cx cy neighbors4 (queue, visited, cnt)")
  from "2.hyps" [OF vn] vn show ?case by simp
qed

lemma countConnectedPixels_region:
  assumes "inGrid w h (sx, sy)"
  shows "countConnectedPixels sx sy w h data bgColor tol =
         int (card (region data w h bgColor tol neighbors4 {} (sx, sy)))"
proof -
  have "bfsInv data w h bgColor tol neighbors4 {} (sx, sy) {(sx, sy)}
           ([(sx, sy)], insert (sy * w + sx) {}, sx, sy, sx, sy, 1)"
    using assms by (intro bfsInv_start) simp_all
  from floodLoop_region [OF this] show ?thesis
    unfolding countConnectedPixels_def
    by (simp add: countLoop_floodLoop [of _ _ _ _ _ _ _ _ sx sy sx sy])
qed


text \<open>Reading back what was written.\<close>

definition validColor :: "color \<Rightarrow> bool" where
  "validColor c = (case c of (r, g, b, a) \<Rightarrow>
     0 \<le> r \<and> r \<le> 255 \<and> 0 \<le> g \<and> g \<le> 255 \<and> 0 \<le> b \<and> b \<le> 255 \<and> 0 \<le> a \<and> a \<le> 255)"

definition sampleOf :: "color \<Rightarrow> sample" where
  "sampleOf c = (case c of (r, g, b, a) \<Rightarrow> (Some r, Some g, Some b, Some a))"

lemma uint_clamp8: "0 \<le> v \<Longrightarrow> v \<le> 255 \<Longrightarrow> uint (clamp8 v) = v"
  by (simp add: clamp8_def uint_word_of_int take_bit_eq_mod)

lemma rd_wr:
  "rd (wr data i v) j =
     (if i = j \<and> 0 \<le> i \<and> i < int (length data) then Some (uint (clamp8 v)) else rd data j)"
  by (auto simp: rd_def wr_def nth_list_update nat_eq_iff)

lemma rd_paint_other:
  assumes "j < i \<or> i + 3 < j"
  shows "rd (paint data i c) j = rd data j"
proof -
  obtain r g bl al where c: "c = (r, g, bl, al)" by (cases c) auto
  from assms have "i \<noteq> j" "i + 1 \<noteq> j" "i + 2 \<noteq> j" "i + 3 \<noteq> j" by auto
  then show ?thesis by (simp add: paint_def c rd_wr)
qed

lemma pixelAt_paint_other:
  assumes "a \<noteq> b"
  shows "pixelAt (paint data (a * 4) c) (b * 4) = pixelAt data (b * 4)"
proof -
  from assms have "\<And>k. 0 \<le> k \<Longrightarrow> k < 4 \<Longrightarrow> b * 4 + k < a * 4 \<or> a * 4 + 3 < b * 4 + k"
    by arith
  from this [of 0] this [of 1] this [of 2] this [of 3] show ?thesis
    by (simp add: pixelAt_def rd_paint_other)
qed

lemma pixelAt_paint_same:
  assumes "0 \<le> a" "a * 4 + 3 < int (length data)" "validColor c"
  shows "pixelAt (paint data (a * 4) c) (a * 4) = sampleOf c"
proof -
  obtain r g bl al where c: "c = (r, g, bl, al)" by (cases c) auto
  from assms show ?thesis
    by (simp add: pixelAt_def paint_def c rd_wr sampleOf_def validColor_def uint_clamp8)
qed

lemma isBackgroundColor_pixelAt:
  "pixelAt d i = pixelAt d' i' \<Longrightarrow>
   isBackgroundColor d i bgColor tol = isBackgroundColor d' i' bgColor tol"
  by (simp add: isBackgroundColor_def pixelAt_def)


definition agreeOff :: "int \<Rightarrow> int \<Rightarrow> int set \<Rightarrow> buffer \<Rightarrow> buffer \<Rightarrow> bool" where
  "agreeOff w h V d d0 =
     (\<forall>n. inGrid w h n \<and> idx w n \<notin> V \<longrightarrow> pixelAt d (idx w n * 4) = pixelAt d0 (idx w n * 4))"

lemma agreeOff_mono: "agreeOff w h V d d0 \<Longrightarrow> V \<subseteq> V' \<Longrightarrow> agreeOff w h V' d d0"
  unfolding agreeOff_def by blast

lemma agreeOff_paint:
  assumes "agreeOff w h V d d0" "idx w p \<in> V"
  shows "agreeOff w h V (paint d (idx w p * 4) c) d0"
  unfolding agreeOff_def
proof (intro allI impI)
  fix n assume n: "inGrid w h n \<and> idx w n \<notin> V"
  with assms(2) have "idx w p \<noteq> idx w n" by auto
  from pixelAt_paint_other [OF this]
  have "pixelAt (paint d (idx w p * 4) c) (idx w n * 4) = pixelAt d (idx w n * 4)" .
  also from assms(1) n have "\<dots> = pixelAt d0 (idx w n * 4)"
    unfolding agreeOff_def by blast
  finally show "pixelAt (paint d (idx w p * 4) c) (idx w n * 4) = pixelAt d0 (idx w n * 4)" .
qed

lemma visitNeighbors_cong:
  "agreeOff w h V d d0 \<Longrightarrow>
   visitNeighbors d w h bgColor tol cx cy ns (q, V, c) =
   visitNeighbors d0 w h bgColor tol cx cy ns (q, V, c)"
proof (induction ns arbitrary: q V c)
  case Nil
  show ?case by simp
next
  case (Cons e ns)
  obtain dx dy where e: "e = (dx, dy)" by (cases e)
  let ?n = "(cx + dx, cy + dy)"
  let ?ni = "(cy + dy) * w + (cx + dx)"
  have ni: "idx w ?n = ?ni" by (simp add: idx_def)
  show ?case
  proof (cases "inGrid w h ?n \<and> ?ni \<notin> V")
    case True
    with Cons.prems have "pixelAt d (?ni * 4) = pixelAt d0 (?ni * 4)"
      unfolding agreeOff_def ni [symmetric] by blast
    then have bg: "isBackgroundColor d (?ni * 4) bgColor tol
        = isBackgroundColor d0 (?ni * 4) bgColor tol"
      by (rule isBackgroundColor_pixelAt)
    have "agreeOff w h (insert ?ni V) d d0"
      using Cons.prems by (rule agreeOff_mono) auto
    from Cons.IH [OF this] Cons.IH [OF Cons.prems] bg show ?thesis
      by (simp add: e Let_def)
  next
    case False
    with Cons.IH [OF Cons.prems] show ?thesis
      by (auto simp add: e Let_def inGrid_def)
  qed
qed

lemma markLoop_floodLoop:
  "idx w ` set q \<subseteq> V \<Longrightarrow> agreeOff w h V d d0 \<Longrightarrow>
   snd (markLoop w h bgColor tol (q, V, d)) =
   fst (floodLoop d0 w h bgColor tol neighbors4 (q, V, a, b, a', b', c))"
proof (induction w h bgColor tol "(q, V, d)" arbitrary: q V d a b a' b' c rule: markLoop.induct)
  case (1 w h bgColor tol visited data)
  show ?case by simp
next
  case (2 w h bgColor tol cx cy queue visited data)
  let ?d' = "paint data ((cy * w + cx) * 4) bgColor"
  have p: "idx w (cx, cy) \<in> visited" using "2.prems"(1) by auto
  have ag: "agreeOff w h visited ?d' d0"
    using agreeOff_paint [OF "2.prems"(2) p] by (simp add: idx_def)
  obtain q' V' c' where
    vn: "visitNeighbors d0 w h bgColor tol cx cy neighbors4 (queue, visited, c) = (q', V', c')"
    by (cases "visitNeighbors d0 w h bgColor tol cx cy neighbors4 (queue, visited, c)")
  from visitNeighbors_new [OF vn] obtain new where
    new: "q' = queue @ new" "V' = visited \<union> idx w ` set new"
    by blast
  have mn: "markNeighbors ?d' w h bgColor tol cx cy neighbors4 (queue, visited) = (q', V')"
    using markNeighbors_visitNeighbors [of ?d' w h bgColor tol cx cy neighbors4 queue visited c]
      visitNeighbors_cong [OF ag, of bgColor tol cx cy neighbors4 queue c] vn
    by simp
  have 1: "idx w ` set q' \<subseteq> V'" using new "2.prems"(1) by auto
  have 2: "agreeOff w h V' ?d' d0" using ag by (rule agreeOff_mono) (simp add: new)
  from "2.hyps" [OF refl refl mn [symmetric] 1 2] mn vn show ?case
    by (simp add: Let_def)
qed


lemma markNeighbors_new:
  assumes "markNeighbors data w h bgColor tol cx cy ns (q, V) = (q', V')"
  shows "\<exists>new. q' = q @ new \<and> V' = V \<union> idx w ` set new
     \<and> set new = {n \<in> shifted ns (cx, cy).
                    inGrid w h n \<and> idx w n \<notin> V \<and> foreground data w bgColor tol n}"
proof -
  obtain c' where "visitNeighbors data w h bgColor tol cx cy ns (q, V, 0) = (q', V', c')"
    using assms markNeighbors_visitNeighbors [of data w h bgColor tol cx cy ns q V 0]
    by (cases "visitNeighbors data w h bgColor tol cx cy ns (q, V, 0)") auto
  from visitNeighbors_new [OF this] show ?thesis by blast
qed

lemma markLoop_data:
  "idx w ` set q \<subseteq> V \<Longrightarrow> \<forall>p \<in> set q. inGrid w h p \<Longrightarrow> int (length d) = w * h * 4 \<Longrightarrow>
   validColor bgColor \<Longrightarrow> markLoop w h bgColor tol (q, V, d) = (df, Vf) \<Longrightarrow>
   V \<subseteq> Vf \<and> length df = length d
   \<and> (\<forall>n. inGrid w h n \<longrightarrow>
          pixelAt df (idx w n * 4) =
            (if n \<in> set q \<or> idx w n \<in> Vf - V then sampleOf bgColor
             else pixelAt d (idx w n * 4)))"
proof (induction w h bgColor tol "(q, V, d)" arbitrary: q V d rule: markLoop.induct)
  case (1 w h bgColor tol visited data)
  then show ?case by simp
next
  case (2 w h bgColor tol cx cy queue visited data)
  let ?p = "(cx, cy)"
  define d' where "d' = paint data ((cy * w + cx) * 4) bgColor"
  have d': "d' = paint data (idx w ?p * 4) bgColor" by (simp add: d'_def idx_def)
  have pg: "inGrid w h ?p" and pv: "idx w ?p \<in> visited"
    using "2.prems"(1,2) by auto
  obtain q' V' where
    mn: "markNeighbors d' w h bgColor tol cx cy neighbors4 (queue, visited) = (q', V')"
    by (cases "markNeighbors d' w h bgColor tol cx cy neighbors4 (queue, visited)")
  from markNeighbors_new [OF mn] obtain new where
    new: "q' = queue @ new" "V' = visited \<union> idx w ` set new"
    "set new = {n \<in> shifted neighbors4 ?p.
        inGrid w h n \<and> idx w n \<notin> visited \<and> foreground d' w bgColor tol n}"
    by blast
  have "(case markNeighbors d' w h bgColor tol cx cy neighbors4 (queue, visited) of
           (queue', visited') \<Rightarrow> markLoop w h bgColor tol (queue', visited', d')) = (df, Vf)"
    using "2.prems"(5) unfolding d'_def by (simp only: markLoop.simps Let_def)
  then have ml: "markLoop w h bgColor tol (q', V', d') = (df, Vf)"
    by (simp add: mn)
  have 1: "idx w ` set q' \<subseteq> V'" using new "2.prems"(1) by auto
  have 2: "\<forall>p \<in> set q'. inGrid w h p" using new "2.prems"(2) by auto
  have 3: "int (length d') = w * h * 4" using "2.prems"(3) by (simp add: d'_def)
  have IH0: "V' \<subseteq> Vf \<and> length df = length d'
     \<and> (\<forall>n. inGrid w h n \<longrightarrow>
          pixelAt df (idx w n * 4) =
            (if n \<in> set q' \<or> idx w n \<in> Vf - V' then sampleOf bgColor
             else pixelAt d' (idx w n * 4)))"
    by (rule "2.hyps" [OF refl d'_def mn [symmetric] 1 2 3 "2.prems"(4) ml])
  then have IH: "V' \<subseteq> Vf" "length df = length d'"
    "\<And>n. inGrid w h n \<Longrightarrow> pixelAt df (idx w n * 4) =
        (if n \<in> set q' \<or> idx w n \<in> Vf - V' then sampleOf bgColor
         else pixelAt d' (idx w n * 4))"
    by blast+
  have rng: "0 \<le> idx w ?p" "idx w ?p * 4 + 3 < int (length data)"
    using idx_range [OF pg] "2.prems"(3) by auto
  have same: "pixelAt d' (idx w ?p * 4) = sampleOf bgColor"
    unfolding d' using rng "2.prems"(4) by (rule pixelAt_paint_same)
  have "\<forall>n. inGrid w h n \<longrightarrow>
          pixelAt df (idx w n * 4) =
            (if n \<in> set (?p # queue) \<or> idx w n \<in> Vf - visited then sampleOf bgColor
             else pixelAt data (idx w n * 4))"
  proof (intro allI impI)
    fix n assume n: "inGrid w h n"
    show "pixelAt df (idx w n * 4) =
            (if n \<in> set (?p # queue) \<or> idx w n \<in> Vf - visited then sampleOf bgColor
             else pixelAt data (idx w n * 4))"
    proof (cases "n = ?p")
      case True
      with IH(3) [OF pg] same show ?thesis by simp
    next
      case False
      with idx_inj [OF pg n] have ne: "idx w ?p \<noteq> idx w n" by blast
      have other: "pixelAt d' (idx w n * 4) = pixelAt data (idx w n * 4)"
        unfolding d' using ne by (rule pixelAt_paint_other)
      have "(n \<in> set q' \<or> idx w n \<in> Vf - V') = (n \<in> set queue \<or> idx w n \<in> Vf - visited)"
      proof
        assume "n \<in> set q' \<or> idx w n \<in> Vf - V'"
        then show "n \<in> set queue \<or> idx w n \<in> Vf - visited"
          using new IH(1) by auto
      next
        assume a: "n \<in> set queue \<or> idx w n \<in> Vf - visited"
        show "n \<in> set q' \<or> idx w n \<in> Vf - V'"
        proof (cases "idx w n \<in> idx w ` set new")
          case True
          then obtain m where m: "m \<in> set new" "idx w m = idx w n" by auto
          then have "inGrid w h m" using new(3) by simp
          from idx_inj [OF this n m(2)] m(1) new(1) show ?thesis by simp
        next
          case False
          with a new(1,2) show ?thesis by auto
        qed
      qed
      with IH(3) [OF n] other False show ?thesis by simp
    qed
  qed
  moreover have "visited \<subseteq> Vf" using IH(1) new(2) by auto
  moreover have "length df = length data" using IH(2) by (simp add: d'_def)
  ultimately show ?case by blast
qed


lemma region_start: "s \<in> region data w h bgColor tol ns V s"
  by (simp add: region_def)

lemma markNoisePixels_region:
  assumes s: "inGrid w h (sx, sy)" "idx w (sx, sy) \<notin> V0"
    and len: "int (length d) = w * h * 4" and bg: "validColor bgColor"
    and mk: "markNoisePixels sx sy w h d V0 bgColor tol = (df, Vf)"
  shows "Vf = V0 \<union> idx w ` region d w h bgColor tol neighbors4 V0 (sx, sy)
     \<and> length df = length d
     \<and> (\<forall>n. inGrid w h n \<longrightarrow>
          pixelAt df (idx w n * 4) =
            (if n \<in> region d w h bgColor tol neighbors4 V0 (sx, sy) then sampleOf bgColor
             else pixelAt d (idx w n * 4)))"
proof -
  let ?s = "(sx, sy)"
  let ?R = "region d w h bgColor tol neighbors4 V0 ?s"
  let ?V = "insert (sy * w + sx) V0"
  have ids: "idx w ?s = sy * w + sx" by (simp add: idx_def)
  have ml: "markLoop w h bgColor tol ([?s], ?V, d) = (df, Vf)"
    using mk by (simp add: markNoisePixels_def)
  have q: "idx w ` set [?s] \<subseteq> ?V" by (simp add: ids)
  have ag: "agreeOff w h ?V d d" by (simp add: agreeOff_def)
  have "Vf = fst (floodLoop d w h bgColor tol neighbors4 ([?s], ?V, sx, sy, sx, sy, 1))"
    using markLoop_floodLoop [OF q ag, of bgColor tol sx sy sx sy 1] ml by simp
  also have "\<dots> = V0 \<union> idx w ` ?R"
    using floodLoop_region [OF bfsInv_start [OF s], of d bgColor tol neighbors4] by simp
  finally have Vf: "Vf = V0 \<union> idx w ` ?R" .
  have g: "\<forall>p \<in> set [?s]. inGrid w h p" using s(1) by simp
  from markLoop_data [OF q g len bg ml]
  have len': "length df = length d"
    and px: "\<And>n. inGrid w h n \<Longrightarrow> pixelAt df (idx w n * 4) =
            (if n \<in> set [?s] \<or> idx w n \<in> Vf - ?V then sampleOf bgColor
             else pixelAt d (idx w n * 4))"
    by blast+
  have "\<forall>n. inGrid w h n \<longrightarrow>
          pixelAt df (idx w n * 4) =
            (if n \<in> ?R then sampleOf bgColor else pixelAt d (idx w n * 4))"
  proof (intro allI impI)
    fix n assume n: "inGrid w h n"
    have "(n \<in> set [?s] \<or> idx w n \<in> Vf - ?V) = (n \<in> ?R)"
    proof
      assume "n \<in> set [?s] \<or> idx w n \<in> Vf - ?V"
      then show "n \<in> ?R"
      proof
        assume "n \<in> set [?s]"
        then show ?thesis using region_start [of ?s d w h bgColor tol neighbors4 V0] by simp
      next
        assume "idx w n \<in> Vf - ?V"
        then obtain m where m: "m \<in> ?R" "idx w m = idx w n" unfolding Vf by auto
        from idx_inj [OF region_grid [OF s(1) m(1)] n m(2)] m(1) show ?thesis by simp
      qed
    next
      assume r: "n \<in> ?R"
      show "n \<in> set [?s] \<or> idx w n \<in> Vf - ?V"
      proof (cases "n = ?s")
        case True
        then show ?thesis by simp
      next
        case False
        with idx_inj [OF n s(1)] have "idx w n \<noteq> idx w ?s" by blast
        moreover have "idx w n \<notin> V0" using region_unvisited [OF s(2) r] .
        moreover have "idx w n \<in> Vf" unfolding Vf using r by blast
        ultimately show ?thesis by (simp add: ids)
      qed
    qed
    with px [OF n] show "pixelAt df (idx w n * 4) =
            (if n \<in> ?R then sampleOf bgColor else pixelAt d (idx w n * 4))"
      by simp
  qed
  with Vf len' show ?thesis by blast
qed

subsection \<open>Counting loops and the scan over all pixels\<close>

lemma forRange_rule:
  assumes "I 0 st" and "\<And>i s. 0 \<le> i \<Longrightarrow> i < n \<Longrightarrow> I i s \<Longrightarrow> I (i + 1) (body i s)"
  shows "I (max 0 n) (forRange n body st)"
proof -
  have "\<And>k. int k \<le> max 0 n \<Longrightarrow> I (int k) (foldl (\<lambda>s i. body i s) st [0..int k - 1])"
  proof -
    fix k show "int k \<le> max 0 n \<Longrightarrow> I (int k) (foldl (\<lambda>s i. body i s) st [0..int k - 1])"
    proof (induction k)
      case 0
      then show ?case using assms(1) by simp
    next
      case (Suc k)
      have "[0..int (Suc k) - 1] = [0..int k - 1] @ [int k]"
        using upto_rec2 [of 0 "int k"] by simp
      moreover have "I (int k) (foldl (\<lambda>s i. body i s) st [0..int k - 1])"
        using Suc by simp
      moreover have "int k < n" using Suc.prems by simp
      ultimately show ?case
        using assms(2) [of "int k"] by (simp add: add.commute)
    qed
  qed
  from this [of "nat (max 0 n)"] have "I (max 0 n) (foldl (\<lambda>s i. body i s) st [0..max 0 n - 1])"
    by simp
  moreover have "[0..max 0 n - 1] = [0..n - 1]"
    by (cases "0 \<le> n") (simp_all add: max_def)
  ultimately show ?thesis by (simp add: forRange_def)
qed


lemma scan_rule:
  assumes init: "I {} st0"
    and step: "\<And>P x y st. I P st \<Longrightarrow> inGrid w h (x, y) \<Longrightarrow>
                 P = {q. inGrid w h q \<and> (snd q < y \<or> snd q = y \<and> fst q < x)} \<Longrightarrow>
                 I (insert (x, y) P) (body y x st)"
  shows "I {p. inGrid w h p} (forRange h (\<lambda>y. forRange w (body y)) st0)"
proof -
  define rowsBefore where "rowsBefore y = {p. inGrid w h p \<and> snd p < y}" for y
  define inRow where
    "inRow y i = rowsBefore y \<union> {p. inGrid w h p \<and> snd p = y \<and> fst p < i}" for y i
  have row: "I (rowsBefore (y + 1)) (forRange w (body y) st)"
    if y: "0 \<le> y" "y < h" and st: "I (rowsBefore y) st" for y st
  proof -
    have "inRow y 0 = rowsBefore y"
      by (auto simp: inRow_def inGrid_def)
    with st have 0: "I (inRow y 0) st" by simp
    have 1: "I (inRow y (i + 1)) (body y i s)" if i: "0 \<le> i" "i < w" and s: "I (inRow y i) s"
      for i s
    proof -
      have g: "inGrid w h (i, y)" using i y by (simp add: inGrid_def)
      have pre: "inRow y i = {q. inGrid w h q \<and> (snd q < y \<or> snd q = y \<and> fst q < i)}"
        by (auto simp: inRow_def rowsBefore_def)
      have "inRow y (i + 1) = insert (i, y) (inRow y i)"
        using g by (auto simp: inRow_def rowsBefore_def)
      with step [OF s g pre] show ?thesis by simp
    qed
    have "inRow y (max 0 w) = rowsBefore (y + 1)"
      by (auto simp: inRow_def rowsBefore_def inGrid_def)
    with forRange_rule [of "\<lambda>i. I (inRow y i)" st w "body y", OF 0 1] show ?thesis
      by simp
  qed
  have "rowsBefore 0 = {}"
    by (auto simp: rowsBefore_def inGrid_def)
  with init have 0: "I (rowsBefore 0) st0" by simp
  have "rowsBefore (max 0 h) = {p. inGrid w h p}"
    by (auto simp: rowsBefore_def inGrid_def)
  with forRange_rule [of "\<lambda>y. I (rowsBefore y)" st0 h "\<lambda>y. forRange w (body y)", OF 0 row]
  show ?thesis by simp
qed

subsection \<open>Rectangular blocks\<close>

definition block :: "int \<Rightarrow> int \<Rightarrow> int \<Rightarrow> int \<Rightarrow> (int \<times> int) set" where
  "block x0 y0 bw bh = {p. x0 \<le> fst p \<and> fst p < x0 + bw \<and> y0 \<le> snd p \<and> snd p < y0 + bh}"

lemma block_times: "block x0 y0 bw bh = {x0..<x0 + bw} \<times> {y0..<y0 + bh}"
  by (auto simp: block_def)

lemma card_block: "0 \<le> bw \<Longrightarrow> 0 \<le> bh \<Longrightarrow> int (card (block x0 y0 bw bh)) = bw * bh"
  by (simp add: block_times)

lemma block_bounds:
  assumes "1 \<le> bw" "1 \<le> bh"
  shows "Min (fst ` block x0 y0 bw bh) = x0" "Min (snd ` block x0 y0 bw bh) = y0"
    "Max (fst ` block x0 y0 bw bh) = x0 + bw - 1" "Max (snd ` block x0 y0 bw bh) = y0 + bh - 1"
proof -
  have ne: "{y0..<y0 + bh} \<noteq> {}" "{x0..<x0 + bw} \<noteq> {}" using assms by auto
  have f: "fst ` block x0 y0 bw bh = {x0..<x0 + bw}"
    unfolding block_times using ne by (simp add: fst_image_times)
  have s: "snd ` block x0 y0 bw bh = {y0..<y0 + bh}"
    unfolding block_times using ne by (simp add: snd_image_times)
  show "Min (fst ` block x0 y0 bw bh) = x0" unfolding f
    using assms by (intro Min_eqI) auto
  show "Min (snd ` block x0 y0 bw bh) = y0" unfolding s
    using assms by (intro Min_eqI) auto
  show "Max (fst ` block x0 y0 bw bh) = x0 + bw - 1" unfolding f
    using assms by (intro Max_eqI) auto
  show "Max (snd ` block x0 y0 bw bh) = y0 + bh - 1" unfolding s
    using assms by (intro Max_eqI) auto
qed

lemma region_eqI:
  assumes "s \<in> C"
    and "\<And>p. p \<in> C \<Longrightarrow> (s, p) \<in> (edges data w h bgColor tol ns V)\<^sup>*"
    and "\<And>p q. p \<in> C \<Longrightarrow> (p, q) \<in> edges data w h bgColor tol ns V \<Longrightarrow> q \<in> C"
  shows "region data w h bgColor tol ns V s = C"
proof
  show "region data w h bgColor tol ns V s \<subseteq> C"
    using assms(1,3) by (intro region_closed_subset) blast+
  show "C \<subseteq> region data w h bgColor tol ns V s"
    using assms(2) by (auto simp: region_def)
qed

text \<open>Inside a block of candidate pixels, any pixel is reached from any other by unit steps.\<close>

lemma block_path:
  assumes cand: "\<And>p. p \<in> block x0 y0 bw bh \<Longrightarrow>
                   inGrid w h p \<and> idx w p \<notin> V \<and> foreground data w bgColor tol p"
    and ns: "set neighbors4 \<subseteq> set ns"
    and s: "s \<in> block x0 y0 bw bh"
  shows "p \<in> block x0 y0 bw bh \<Longrightarrow> (s, p) \<in> (edges data w h bgColor tol ns V)\<^sup>*"
proof (induction "nat (\<bar>fst p - fst s\<bar> + \<bar>snd p - snd s\<bar>)" arbitrary: p)
  case 0
  then have "fst p = fst s \<and> snd p = snd s" by linarith
  then have "p = s" by (simp add: prod_eq_iff)
  then show ?case by simp
next
  case (Suc k)
  let ?E = "edges data w h bgColor tol ns V"
  have step: "(s, p) \<in> ?E\<^sup>*"
    if p': "p' \<in> block x0 y0 bw bh" "k = nat (\<bar>fst p' - fst s\<bar> + \<bar>snd p' - snd s\<bar>)"
      and d: "(fst p - fst p', snd p - snd p') \<in> set neighbors4" for p'
  proof -
    have "p \<in> shifted ns p'"
      unfolding shifted_def using d ns
      by (intro image_eqI [of _ _ "(fst p - fst p', snd p - snd p')"]) auto
    with cand [OF Suc.prems] have "(p', p) \<in> ?E" by (simp add: edges_def)
    with Suc.hyps(1) [OF p'(2) p'(1)] show ?thesis by (rule rtrancl_into_rtrancl)
  qed
  from s Suc.prems have b: "x0 \<le> fst s" "fst s < x0 + bw" "y0 \<le> snd s" "snd s < y0 + bh"
    "x0 \<le> fst p" "fst p < x0 + bw" "y0 \<le> snd p" "snd p < y0 + bh"
    by (simp_all add: block_def)
  consider "fst p > fst s" | "fst p < fst s" | "fst p = fst s" "snd p > snd s"
    | "fst p = fst s" "snd p < snd s"
    using Suc.hyps(2) by linarith
  then show ?case
  proof cases
    case 1
    show ?thesis
      using b 1 Suc.hyps(2)
      by (intro step [of "(fst p - 1, snd p)"]) (auto simp: block_def neighbors4_def)
  next
    case 2
    show ?thesis
      using b 2 Suc.hyps(2)
      by (intro step [of "(fst p + 1, snd p)"]) (auto simp: block_def neighbors4_def)
  next
    case 3
    show ?thesis
      using b 3 Suc.hyps(2)
      by (intro step [of "(fst p, snd p - 1)"]) (auto simp: block_def neighbors4_def)
  next
    case 4
    show ?thesis
      using b 4 Suc.hyps(2)
      by (intro step [of "(fst p, snd p + 1)"]) (auto simp: block_def neighbors4_def)
  qed
qed

lemma region_block:
  assumes cand: "\<And>p. p \<in> block x0 y0 bw bh \<Longrightarrow>
                   inGrid w h p \<and> idx w p \<notin> V \<and> foreground data w bgColor tol p"
    and closed: "\<And>p q. p \<in> block x0 y0 bw bh \<Longrightarrow> (p, q) \<in> edges data w h bgColor tol ns V \<Longrightarrow>
                   q \<in> block x0 y0 bw bh"
    and ns: "set neighbors4 \<subseteq> set ns"
    and s: "s \<in> block x0 y0 bw bh"
  shows "region data w h bgColor tol ns V s = block x0 y0 bw bh"
  using s block_path [OF cand ns s] closed by (rule region_eqI)


subsection \<open>Noise reduction leaves large regions alone\<close>

lemma fg_xy:
  "foreground data w bgColor tol (x, y) = (\<not> isBackgroundColor data ((y * w + x) * 4) bgColor tol)"
  by (simp add: foreground_def idx_def)

lemma idx_xy: "idx w (x, y) = y * w + x"
  by (simp add: idx_def)

lemma noiseStep_unchanged:
  assumes "inGrid w h (x, y)"
    and "foreground data w bgColor tol (x, y) \<Longrightarrow>
         threshold < int (card (region data w h bgColor tol neighbors4 {} (x, y)))"
  shows "noiseStep w h bgColor tol threshold y x (data, {}) = (data, {})"
proof (cases "foreground data w bgColor tol (x, y)")
  case True
  with assms(2) have "\<not> countConnectedPixels x y w h data bgColor tol \<le> threshold"
    by (simp add: countConnectedPixels_region [OF assms(1)])
  then show ?thesis
    by (simp add: noiseStep_def Let_def del: distrib_right_numeral distrib_left_numeral)
next
  case False
  then have "isBackgroundColor data ((y * w + x) * 4) bgColor tol"
    by (simp only: fg_xy not_not)
  then show ?thesis
    by (simp add: noiseStep_def Let_def del: distrib_right_numeral distrib_left_numeral)
qed

lemma applyNoiseReduction_unchanged:
  assumes "\<And>p. inGrid w h p \<Longrightarrow> foreground data w bgColor (tolerance config) p \<Longrightarrow>
      thresholdOf config < int (card (region data w h bgColor (tolerance config) neighbors4 {} p))"
  shows "applyNoiseReduction data w h bgColor config = data"
proof (cases "enableNoiseReduction config")
  case False
  then show ?thesis by (simp add: applyNoiseReduction_def)
next
  case True
  have "(\<lambda>P st. st = (data, {})) {p. inGrid w h p}
          (forRange h (\<lambda>y. forRange w
             (noiseStep w h bgColor (tolerance config) (thresholdOf config) y)) (data, {}))"
  proof (rule scan_rule)
    show "(data, {}) = (data, {})" ..
  next
    fix P :: "(int \<times> int) set" and x y :: int and st :: "buffer \<times> int set"
    assume "st = (data, {})" "inGrid w h (x, y)"
    with assms [of "(x, y)"]
    show "noiseStep w h bgColor (tolerance config) (thresholdOf config) y x st = (data, {})"
      by (simp add: noiseStep_unchanged)
  qed
  with True show ?thesis by (simp add: applyNoiseReduction_def Let_def)
qed

subsection \<open>Scanning an image whose foreground is one block\<close>

lemma scanStep_skip:
  assumes "idx w (x, y) \<in> V \<or> \<not> foreground data w bgColor (tolerance config) (x, y)"
  shows "scanStep data w h bgColor config y x (V, fs, n) = (V, fs, n)"
proof -
  from assms
  have "y * w + x \<in> V \<or> isBackgroundColor data ((y * w + x) * 4) bgColor (tolerance config)"
    by (simp only: fg_xy idx_xy not_not)
  then show ?thesis
    by (auto simp add: scanStep_def Let_def simp del: distrib_right_numeral distrib_left_numeral)
qed

lemma scanStep_fill:
  assumes "inGrid w h (x, y)" "idx w (x, y) \<notin> V"
    "foreground data w bgColor (tolerance config) (x, y)"
  shows "scanStep data w h bgColor config y x (V, fs, n) =
     (let R = region data w h bgColor (tolerance config)
                (if use8WayConnectivity config then neighbors8 else neighbors4) V (x, y)
      in (V \<union> idx w ` R,
          (if int (card R) \<ge> minSpriteSize config
           then fs @ [mkFrame (length fs) (Min (fst ` R)) (Min (snd ` R))
                        (Max (fst ` R)) (Max (snd ` R))]
           else fs),
          n + int (card R)))"
proof -
  from assms(2,3)
  have "\<not> (y * w + x \<in> V \<or> isBackgroundColor data ((y * w + x) * 4) bgColor (tolerance config))"
    by (simp only: fg_xy idx_xy) simp
  then show ?thesis
    by (simp add: scanStep_def Let_def floodFill_region [OF assms(1,2), unfolded Let_def]
        del: distrib_right_numeral distrib_left_numeral)
qed

lemma neighbors4_subset:
  "set neighbors4 \<subseteq> set (if use8WayConnectivity config then neighbors8 else neighbors4)"
  by (auto simp: neighbors4_def neighbors8_def)

lemma scanImage_block:
  assumes sz: "1 \<le> bw" "1 \<le> bh"
    and sub: "block x0 y0 bw bh \<subseteq> {p. inGrid w h p}"
    and fg: "\<And>p. inGrid w h p \<Longrightarrow>
               foreground data w bgColor (tolerance config) p = (p \<in> block x0 y0 bw bh)"
  shows "fst (snd (scanImage data w h bgColor config)) =
     (if minSpriteSize config \<le> bw * bh
      then [mkFrame 0 x0 y0 (x0 + bw - 1) (y0 + bh - 1)] else [])"
proof -
  let ?C = "block x0 y0 bw bh"
  let ?ns = "if use8WayConnectivity config then neighbors8 else neighbors4"
  let ?F = "if minSpriteSize config \<le> bw * bh
      then [mkFrame 0 x0 y0 (x0 + bw - 1) (y0 + bh - 1)] else []"
  define I where "I P st = (if P \<inter> ?C = {} then st = ({}, [], 0)
      else st = (idx w ` ?C, ?F, bw * bh))" for P :: "(int \<times> int) set"
    and st :: "int set \<times> frame list \<times> int"
  have reg: "region data w h bgColor (tolerance config) ?ns {} p = ?C" if "p \<in> ?C" for p
  proof (rule region_block [OF _ _ neighbors4_subset that])
    fix q assume "q \<in> ?C"
    with sub fg [of q]
    show "inGrid w h q \<and> idx w q \<notin> {} \<and> foreground data w bgColor (tolerance config) q"
      by auto
  next
    fix q r assume "(q, r) \<in> edges data w h bgColor (tolerance config) ?ns {}"
    then show "r \<in> ?C" using fg [of r] by (simp add: edges_def)
  qed
  have "I {p. inGrid w h p}
          (forRange h (\<lambda>y. forRange w (scanStep data w h bgColor config y)) ({}, [], 0))"
  proof (rule scan_rule)
    show "I {} ({}, [], 0)" by (simp add: I_def)
  next
    fix P :: "(int \<times> int) set" and x y :: int and st :: "int set \<times> frame list \<times> int"
    assume st: "I P st" and g: "inGrid w h (x, y)"
    show "I (insert (x, y) P) (scanStep data w h bgColor config y x st)"
    proof (cases "P \<inter> ?C = {}")
      case True
      with st have st': "st = ({}, [], 0)" by (simp add: I_def)
      show ?thesis
      proof (cases "(x, y) \<in> ?C")
        case False
        with True have "insert (x, y) P \<inter> ?C = {}" by simp
        moreover have "scanStep data w h bgColor config y x st = st"
          unfolding st' using False fg [OF g] by (intro scanStep_skip) simp
        ultimately show ?thesis using st' True False by (simp add: I_def)
      next
        case in_block: True
        then have ne: "insert (x, y) P \<inter> ?C \<noteq> {}" by auto
        have f: "foreground data w bgColor (tolerance config) (x, y)"
          using in_block fg [OF g] by simp
        have "scanStep data w h bgColor config y x st = (idx w ` ?C, ?F, bw * bh)"
          unfolding st' scanStep_fill [OF g _ f, of "{}", simplified] Let_def reg [OF in_block]
          using sz by (simp add: card_block block_bounds)
        with ne in_block show ?thesis by (simp add: I_def)
      qed
    next
      case False
      with st have st': "st = (idx w ` ?C, ?F, bw * bh)" by (simp add: I_def)
      have "idx w (x, y) \<in> idx w ` ?C \<or> \<not> foreground data w bgColor (tolerance config) (x, y)"
        using fg [OF g] by auto
      then have "scanStep data w h bgColor config y x st = st"
        unfolding st' by (rule scanStep_skip)
      then show ?thesis using st' False by (simp add: I_def)
    qed
  qed
  moreover have "{p. inGrid w h p} \<inter> ?C \<noteq> {}"
  proof -
    have "(x0, y0) \<in> ?C" using sz by (simp add: block_def)
    with sub show ?thesis by auto
  qed
  ultimately show ?thesis by (simp add: I_def scanImage_def)
qed

subsection \<open>Synthetic images\<close>

definition inBlock :: "int \<Rightarrow> int \<Rightarrow> int \<Rightarrow> int \<Rightarrow> int \<times> int \<Rightarrow> bool" where
  "inBlock x0 y0 bw bh p = (x0 \<le> fst p \<and> fst p < x0 + bw \<and> y0 \<le> snd p \<and> snd p < y0 + bh)"

lemma inBlock_block: "inBlock x0 y0 bw bh p = (p \<in> block x0 y0 bw bh)"
  by (simp add: inBlock_def block_def)

definition gridPixels :: "int \<Rightarrow> int \<Rightarrow> (int \<times> int) list" where
  "gridPixels w h = concat (map (\<lambda>y. map (\<lambda>x. (x, y)) [0..w - 1]) [0..h - 1])"

lemma set_gridPixels: "set (gridPixels w h) = {p. inGrid w h p}"
  by (auto simp: gridPixels_def inGrid_def)

definition bufferOf :: "color list \<Rightarrow> buffer" where
  "bufferOf cs =
     concat (map (\<lambda>(r, g, b, a). [word_of_int r, word_of_int g, word_of_int b, word_of_int a]) cs)"

definition imageOf :: "int \<Rightarrow> int \<Rightarrow> (int \<times> int \<Rightarrow> color) \<Rightarrow> image" where
  "imageOf w h f =
     \<lparr> naturalWidth = w, naturalHeight = h, complete = True,
       pixels = bufferOf (map f (gridPixels w h)) \<rparr>"

definition white :: color where "white = (255, 255, 255, 255)"
definition red :: color where "red = (255, 0, 0, 255)"

definition scenarioImage :: image where
  "scenarioImage = imageOf 10 10 (\<lambda>p. if inBlock 2 2 3 3 p then red else white)"

definition speckImage :: image where
  "speckImage = imageOf 3 3 (\<lambda>p. if inBlock 1 1 1 1 p then red else white)"

lemma floodFillAlgorithm_block:
  assumes valid: "validateInputs (Some img) config = Inr img"
    and bg: "detectBackgroundColor (pixels img) (naturalWidth img) (naturalHeight img) = Inr bgColor"
    and sz: "1 \<le> bw" "1 \<le> bh"
    and sub: "block x0 y0 bw bh \<subseteq> {p. inGrid (naturalWidth img) (naturalHeight img) p}"
    and fg: "\<And>p. inGrid (naturalWidth img) (naturalHeight img) p \<Longrightarrow>
               foreground (pixels img) (naturalWidth img) bgColor (tolerance (mergeConfig config)) p
               = (p \<in> block x0 y0 bw bh)"
    and noise: "\<not> enableNoiseReduction (mergeConfig config)
               \<or> thresholdOf (mergeConfig config) < bw * bh"
  shows "floodFillAlgorithm (Some img) config =
     Inr (if minSpriteSize (mergeConfig config) \<le> bw * bh
          then [mkFrame 0 x0 y0 (x0 + bw - 1) (y0 + bh - 1)] else [])"
proof -
  let ?w = "naturalWidth img" and ?h = "naturalHeight img" and ?cfg = "mergeConfig config"
  let ?C = "block x0 y0 bw bh"
  have "(x0, y0) \<in> ?C" using sz by (simp add: block_def)
  with sub have "inGrid ?w ?h (x0, y0)" by auto
  then have dims: "?w \<noteq> 0" "?h \<noteq> 0" by (auto simp: inGrid_def)
  have reg: "region (pixels img) ?w ?h bgColor (tolerance ?cfg) neighbors4 {} p = ?C"
    if "p \<in> ?C" for p
  proof (rule region_block [OF _ _ subset_refl that])
    fix q assume "q \<in> ?C"
    with sub fg [of q]
    show "inGrid ?w ?h q \<and> idx ?w q \<notin> {}
        \<and> foreground (pixels img) ?w bgColor (tolerance ?cfg) q"
      by auto
  next
    fix q r assume "(q, r) \<in> edges (pixels img) ?w ?h bgColor (tolerance ?cfg) neighbors4 {}"
    then show "r \<in> ?C" using fg [of r] by (simp add: edges_def)
  qed
  have nr: "applyNoiseReduction (pixels img) ?w ?h bgColor ?cfg = pixels img"
    if "enableNoiseReduction ?cfg"
  proof (rule applyNoiseReduction_unchanged)
    fix p assume "inGrid ?w ?h p" "foreground (pixels img) ?w bgColor (tolerance ?cfg) p"
    with fg [of p] have "p \<in> ?C" by simp
    from reg [OF this] noise that sz
    show "thresholdOf ?cfg
        < int (card (region (pixels img) ?w ?h bgColor (tolerance ?cfg) neighbors4 {} p))"
      by (simp add: card_block)
  qed
  have "fst (snd (scanImage (pixels img) ?w ?h bgColor ?cfg)) =
     (if minSpriteSize ?cfg \<le> bw * bh
      then [mkFrame 0 x0 y0 (x0 + bw - 1) (y0 + bh - 1)] else [])"
    using sz sub fg by (rule scanImage_block)
  with valid bg dims nr show ?thesis
    by (simp add: floodFillAlgorithm_def Let_def)
qed

section \<open>One square block of foreground\<close>

text \<open>
  Claim C2, as the code has it.  Take a loaded image and a valid configuration, and let
  the pixels that are not background (relative to the estimated background colour and
  the tolerance) be exactly a square block of side \<open>sd\<close>, hence of \<open>sd * sd\<close> pixels.
  When noise reduction is disabled, or the block has more pixels than the noise
  threshold in force, detection returns exactly one frame, numbered 0 and named
  \<open>sprite_0\<close>, whose rectangle is the block, if \<open>minSpriteSize\<close> is at most the number
  of pixels of the block, and no frame if \<open>minSpriteSize\<close> is larger.
\<close>

theorem single_block_detection:
  assumes "validateInputs (Some img) config = Inr img"
    and "detectBackgroundColor (pixels img) (naturalWidth img) (naturalHeight img) = Inr bgColor"
    and "1 \<le> sd"
    and "\<forall>p. inBlock x0 y0 sd sd p \<longrightarrow> inGrid (naturalWidth img) (naturalHeight img) p"
    and "\<forall>p. inGrid (naturalWidth img) (naturalHeight img) p \<longrightarrow>
           foreground (pixels img) (naturalWidth img) bgColor (tolerance (mergeConfig config)) p
           = inBlock x0 y0 sd sd p"
    and "\<not> enableNoiseReduction (mergeConfig config)
         \<or> thresholdOf (mergeConfig config) < sd * sd"
  shows "floodFillAlgorithm (Some img) config =
     Inr (if minSpriteSize (mergeConfig config) \<le> sd * sd
          then [\<lparr> frameId = 0, name = ''sprite_0'',
                  rect = \<lparr> rx = x0, ry = y0, rw = sd, rh = sd \<rparr>,
                  frameType = ''simple'' \<rparr>]
          else [])"
proof -
  have "floodFillAlgorithm (Some img) config =
     Inr (if minSpriteSize (mergeConfig config) \<le> sd * sd
          then [mkFrame 0 x0 y0 (x0 + sd - 1) (y0 + sd - 1)] else [])"
    using assms by (intro floodFillAlgorithm_block) (auto simp: inBlock_block)
  then show ?thesis by (simp add: mkFrame_def)
qed

lemma scenario_foreground:
  "\<forall>p \<in> set (gridPixels 10 10).
     foreground (pixels scenarioImage) 10 white 10 p = inBlock 2 2 3 3 p"
  by code_simp

lemma scenario_background: "detectBackgroundColor (pixels scenarioImage) 10 10 = Inr white"
  by code_simp

theorem single_block_detection_witness:
  "floodFillAlgorithm (Some scenarioImage) (emptyConfig\<lparr>p_minSpriteSize := Some 4\<rparr>) =
     Inr [\<lparr> frameId = 0, name = ''sprite_0'', rect = \<lparr> rx = 2, ry = 2, rw = 3, rh = 3 \<rparr>,
            frameType = ''simple'' \<rparr>]
   \<and> floodFillAlgorithm (Some scenarioImage) (emptyConfig\<lparr>p_minSpriteSize := Some 10\<rparr>) = Inr []"
proof -
  have dims: "naturalWidth scenarioImage = 10" "naturalHeight scenarioImage = 10"
    "complete scenarioImage"
    by (simp_all add: scenarioImage_def imageOf_def)
  have cfg: "tolerance (mergeConfig (emptyConfig\<lparr>p_minSpriteSize := Some m\<rparr>)) = 10"
    "minSpriteSize (mergeConfig (emptyConfig\<lparr>p_minSpriteSize := Some m\<rparr>)) = m"
    "thresholdOf (mergeConfig (emptyConfig\<lparr>p_minSpriteSize := Some m\<rparr>)) = 2" for m
    by (simp_all add: mergeConfig_def emptyConfig_def DEFAULT_CONFIG_def orDefault_def
        thresholdOf_def)
  have valid: "validateInputs (Some scenarioImage) (emptyConfig\<lparr>p_minSpriteSize := Some m\<rparr>)
      = Inr scenarioImage" if "1 \<le> m" for m
    using that dims by (simp add: validateInputs_def emptyConfig_def)
  have inside: "\<forall>p. inBlock 2 2 3 3 p \<longrightarrow> inGrid 10 10 p"
    by (simp add: inBlock_def inGrid_def)
  have fg: "\<forall>p. inGrid 10 10 p \<longrightarrow>
      foreground (pixels scenarioImage) 10 white 10 p = inBlock 2 2 3 3 p"
    using scenario_foreground by (simp add: set_gridPixels)
  show ?thesis
    using single_block_detection [of scenarioImage "emptyConfig\<lparr>p_minSpriteSize := Some 4\<rparr>"
        white 3 2 2]
      single_block_detection [of scenarioImage "emptyConfig\<lparr>p_minSpriteSize := Some 10\<rparr>"
        white 3 2 2]
      valid [of 4] valid [of 10] scenario_background inside fg
    by (simp add: dims cfg)
qed

text \<open>
  As stated, the claim fails for a block of one pixel under the default configuration:
  with \<open>minSpriteSize = 1\<close> the noise filter (enabled, threshold 2) repaints the block
  before the scan and no frame is returned.
\<close>

theorem single_block_detection_counterexample:
  "list_all (\<lambda>p. foreground (pixels speckImage) 3 white 10 p = inBlock 1 1 1 1 p)
     (gridPixels 3 3)
   \<and> detectBackgroundColor (pixels speckImage) 3 3 = Inr white
   \<and> minSpriteSize (mergeConfig (emptyConfig\<lparr>p_minSpriteSize := Some 1\<rparr>)) \<le> 1
   \<and> floodFillAlgorithm (Some speckImage) (emptyConfig\<lparr>p_minSpriteSize := Some 1\<rparr>) = Inr []"
  by code_simp

section \<open>The cache\<close>

lemma cacheSet_new:
  "k \<notin> set (map fst cache) \<Longrightarrow> cacheSet cache k v = cache @ [(k, v)]"
  by (simp add: cacheSet_def cacheHas_def)

lemma cacheSet_present:
  "k \<in> set (map fst cache) \<Longrightarrow> map fst (cacheSet cache k v) = map fst cache"
  by (induction cache) (auto simp: cacheSet_def cacheHas_def)

lemma cacheDelete_hd:
  "distinct (map fst (e # es)) \<Longrightarrow> cacheDelete (e # es) (fst e) = es"
proof -
  assume d: "distinct (map fst (e # es))"
  then have "fst e \<notin> fst ` set es" by simp
  then have "\<forall>x \<in> set es. fst x \<noteq> fst e" by (metis imageI)
  then have "filter (\<lambda>x. fst x \<noteq> fst e) es = es" by (simp add: filter_id_conv)
  then show ?thesis by (simp add: cacheDelete_def)
qed

lemma manageCacheSize_distinct:
  "distinct (map fst cache) \<Longrightarrow>
   manageCacheSize cache = (if length cache > CACHE_MAX_SIZE then tl cache else cache)"
  by (cases cache) (simp_all add: manageCacheSize_def cacheDelete_hd del: distinct.simps)

lemma store_new:
  assumes "distinct (map fst cache)" "k \<notin> set (map fst cache)"
  shows "manageCacheSize (cacheSet cache k v) =
     (if length cache \<ge> CACHE_MAX_SIZE then tl (cache @ [(k, v)]) else cache @ [(k, v)])"
proof -
  have "distinct (map fst (cache @ [(k, v)]))" using assms by simp
  from manageCacheSize_distinct [OF this] show ?thesis
    by (auto simp: cacheSet_new [OF assms(2)])
qed

lemma cacheSet_length_present:
  "k \<in> set (map fst cache) \<Longrightarrow> length (cacheSet cache k v) = length cache"
  by (simp add: cacheSet_def cacheHas_def)

lemma store_present:
  assumes "distinct (map fst cache)" "k \<in> set (map fst cache)" "length cache \<le> CACHE_MAX_SIZE"
  shows "manageCacheSize (cacheSet cache k v) = cacheSet cache k v"
  using assms by (simp add: manageCacheSize_def cacheSet_length_present)

text \<open>Storing a sequence of results with distinct keys, starting from the empty cache.\<close>

definition storeAll :: "detectionCache \<Rightarrow> (cacheKey \<times> frame list) list \<Rightarrow> detectionCache" where
  "storeAll cache kvs = foldl (\<lambda>c e. manageCacheSize (cacheSet c (fst e) (snd e))) cache kvs"

lemma storeAll_distinct:
  "distinct (map fst kvs) \<Longrightarrow> storeAll [] kvs = drop (length kvs - CACHE_MAX_SIZE) kvs"
proof (induction kvs rule: rev_induct)
  case Nil
  show ?case by (simp add: storeAll_def)
next
  case (snoc e kvs)
  let ?c = "drop (length kvs - CACHE_MAX_SIZE) kvs"
  from snoc have IH: "storeAll [] kvs = ?c" by simp
  have d: "distinct (map fst ?c)"
    using snoc.prems by (simp add: distinct_drop drop_map [symmetric])
  have n: "fst e \<notin> set (map fst ?c)"
    using snoc.prems by (auto dest: in_set_dropD)
  have "storeAll [] (kvs @ [e]) = manageCacheSize (cacheSet ?c (fst e) (snd e))"
    by (simp add: storeAll_def IH [unfolded storeAll_def])
  also have "\<dots> = (if length ?c \<ge> CACHE_MAX_SIZE then tl (?c @ [e]) else ?c @ [e])"
    using store_new [OF d n, of "snd e"] by simp
  also have "\<dots> = drop (length (kvs @ [e]) - CACHE_MAX_SIZE) (kvs @ [e])"
  proof (cases "length kvs \<ge> CACHE_MAX_SIZE")
    case True
    then have l: "length ?c = CACHE_MAX_SIZE" by simp
    have "tl (?c @ [e]) = tl ?c @ [e]"
      using l by (cases ?c) (simp_all add: CACHE_MAX_SIZE_def)
    moreover have "tl ?c = drop (Suc (length kvs - CACHE_MAX_SIZE)) kvs"
      by (simp only: tl_drop drop_Suc)
    then have "tl ?c = drop (Suc (length kvs) - CACHE_MAX_SIZE) kvs"
      using True by (simp add: Suc_diff_le)
    moreover have "Suc (length kvs) - CACHE_MAX_SIZE \<le> length kvs"
      using True by (simp add: CACHE_MAX_SIZE_def)
    ultimately show ?thesis using l by simp
  next
    case False
    then show ?thesis by simp
  qed
  finally show ?case .
qed


lemma detect_hit_keeps_cache:
  assumes "detectSpritesFromImage env cache imageElement config = (res, cache', CacheHit)"
  shows "cache' = cache"
  using assms
  by (auto simp: detectSpritesFromImage_def processWithWebWorker_def Let_def
      split: sum.splits option.splits if_splits)

text \<open>
  Claim C7.  \<open>CACHE_MAX_SIZE\<close> is 10.  A cache with distinct keys and at most 10 entries
  still has distinct keys and at most 10 entries after a result is stored
  (\<^verbatim>\<open>set\<close> followed by \<^verbatim>\<open>manageCacheSize\<close>).  Storing under a new key appends the entry
  and, when the cache was full, drops the entry at the front, which is the one inserted
  earliest; storing under a present key leaves the order of the keys as it was; a call
  answered from the cache leaves the cache as it was.  Hence storing results under
  distinct keys into the empty cache leaves exactly the last 10 of them, in order.
\<close>

theorem cache_bounded_insertion_order:
  assumes "distinct (map fst cache)" and "length cache \<le> CACHE_MAX_SIZE"
  shows "CACHE_MAX_SIZE = 10
    \<and> length (manageCacheSize (cacheSet cache k v)) \<le> CACHE_MAX_SIZE
    \<and> distinct (map fst (manageCacheSize (cacheSet cache k v)))
    \<and> (k \<notin> set (map fst cache) \<longrightarrow>
          manageCacheSize (cacheSet cache k v) =
            (if length cache = CACHE_MAX_SIZE then tl cache else cache) @ [(k, v)])
    \<and> (k \<in> set (map fst cache) \<longrightarrow>
          map fst (manageCacheSize (cacheSet cache k v)) = map fst cache)
    \<and> (\<forall>env imageElement config res cache'.
          detectSpritesFromImage env cache imageElement config = (res, cache', CacheHit) \<longrightarrow>
          cache' = cache)
    \<and> (\<forall>kvs. distinct (map fst kvs) \<longrightarrow>
          storeAll [] kvs = drop (length kvs - CACHE_MAX_SIZE) kvs)"
proof -
  have new: "manageCacheSize (cacheSet cache k v) =
            (if length cache = CACHE_MAX_SIZE then tl cache else cache) @ [(k, v)]"
    if "k \<notin> set (map fst cache)"
  proof -
    have "cache \<noteq> []" if "length cache = CACHE_MAX_SIZE"
      using that by (auto simp: CACHE_MAX_SIZE_def)
    then show ?thesis
      using store_new [OF assms(1) that, of v] assms(2) by auto
  qed
  have old: "manageCacheSize (cacheSet cache k v) = cacheSet cache k v"
    if "k \<in> set (map fst cache)"
    using store_present [OF assms(1) that assms(2)] .
  have 1: "length (manageCacheSize (cacheSet cache k v)) \<le> CACHE_MAX_SIZE"
  proof (cases "k \<in> set (map fst cache)")
    case True
    with old assms(2) show ?thesis by (simp add: cacheSet_length_present)
  next
    case False
    with new assms(2) show ?thesis by (auto simp: CACHE_MAX_SIZE_def)
  qed
  have 2: "distinct (map fst (manageCacheSize (cacheSet cache k v)))"
  proof (cases "k \<in> set (map fst cache)")
    case True
    with old assms(1) show ?thesis by (simp add: cacheSet_present)
  next
    case False
    have "distinct (map fst (tl cache))" "k \<notin> set (map fst (tl cache))"
      using assms(1) False by (cases cache; auto)+
    with new [OF False] assms(1) False show ?thesis by auto
  qed
  show ?thesis
    using 1 2 new old cacheSet_present [of k cache v] detect_hit_keeps_cache storeAll_distinct
    by (auto simp: CACHE_MAX_SIZE_def)
qed

definition sizeKey :: "int \<Rightarrow> cacheKey" where
  "sizeKey n = (n, n, 10, 4, False, ''floodFill'')"

theorem cache_bounded_insertion_order_witness:
  "map fst (manageCacheSize
             (cacheSet (map (\<lambda>n. (sizeKey n, [])) [1..10]) (sizeKey 11) []))
   = map sizeKey [2..11]
   \<and> storeAll [] (map (\<lambda>n. (sizeKey n, [])) [1..11]) = map (\<lambda>n. (sizeKey n, [])) [2..11]"
proof -
  let ?c = "map (\<lambda>n. (sizeKey n, [])) [1..10] :: detectionCache"
  let ?kvs = "map (\<lambda>n. (sizeKey n, [])) [1..11] :: detectionCache"
  have u: "[1..10] = [1, 2, 3, 4, 5, 6, 7, 8, 9, 10 :: int]"
    "[1..11] = [1, 2, 3, 4, 5, 6, 7, 8, 9, 10, 11 :: int]"
    "[2..11] = [2, 3, 4, 5, 6, 7, 8, 9, 10, 11 :: int]"
    by (simp_all add: upto.simps)
  have d: "distinct (map fst ?c)" "length ?c \<le> CACHE_MAX_SIZE"
    "sizeKey 11 \<notin> set (map fst ?c)" "distinct (map fst ?kvs)"
    by (simp_all add: u sizeKey_def CACHE_MAX_SIZE_def)
  from cache_bounded_insertion_order [OF d(1,2), of "sizeKey 11" "[]"] d(3,4)
  show ?thesis
    by (simp add: u CACHE_MAX_SIZE_def)
qed

section \<open>The placeholder algorithms\<close>

lemma mergeConfig_asPartial [simp]: "mergeConfig (asPartial c) = c"
  by (simp add: mergeConfig_def asPartial_def orDefault_def)

lemma validateInputs_algorithm:
  "validateInputs imageElement (asPartial (c\<lparr>algorithm := a\<rparr>)) =
   validateInputs imageElement (asPartial c)"
  by (simp add: validateInputs_def asPartial_def split: option.splits)

lemma scanImage_algorithm:
  "scanImage data w h bgColor (c\<lparr>algorithm := a\<rparr>) = scanImage data w h bgColor c"
proof -
  have "floodFill data w h bgColor (c\<lparr>algorithm := a\<rparr>) = floodFill data w h bgColor c"
    by (intro ext) (simp add: floodFill_def)
  then have "scanStep data w h bgColor (c\<lparr>algorithm := a\<rparr>) = scanStep data w h bgColor c"
    by (intro ext) (simp add: scanStep_def split: prod.splits)
  then show ?thesis by (simp add: scanImage_def)
qed

lemma applyNoiseReduction_algorithm:
  "applyNoiseReduction data w h bgColor (c\<lparr>algorithm := a\<rparr>) =
   applyNoiseReduction data w h bgColor c"
  by (simp add: applyNoiseReduction_def thresholdOf_def)

lemma floodFillAlgorithm_algorithm:
  "floodFillAlgorithm imageElement (asPartial (c\<lparr>algorithm := a\<rparr>)) =
   floodFillAlgorithm imageElement (asPartial c)"
  by (simp add: floodFillAlgorithm_def validateInputs_algorithm scanImage_algorithm
      applyNoiseReduction_algorithm Let_def split: sum.splits)

lemma callAlgorithm_placeholders:
  "callAlgorithm (selectAlgorithm (c\<lparr>algorithm := ''contour''\<rparr>)) i p
     = Inr (floodFillAlgorithm i p)"
  "callAlgorithm (selectAlgorithm (c\<lparr>algorithm := ''ai''\<rparr>)) i p
     = Inr (floodFillAlgorithm i p)"
  "callAlgorithm (selectAlgorithm (c\<lparr>algorithm := ''floodFill''\<rparr>)) i p
     = Inr (floodFillAlgorithm i p)"
  by (simp_all add: callAlgorithm_def selectAlgorithm_def detectionAlgorithms_def
      contourAlgorithm_def aiDetectionAlgorithm_def)

lemma mergeConfig_algorithm:
  "mergeConfig (config\<lparr>p_algorithm := Some a\<rparr>) = (mergeConfig config)\<lparr>algorithm := a\<rparr>"
  by (simp add: mergeConfig_def orDefault_def)

lemma validateInputs_p_algorithm:
  "validateInputs imageElement (config\<lparr>p_algorithm := a\<rparr>) = validateInputs imageElement config"
  by (simp add: validateInputs_def split: option.splits)

lemma storeResult_algorithm_fst:
  "enableCache (c\<lparr>algorithm := a\<rparr>) = enableCache c" by simp

lemma detect_uncached:
  assumes "validateInputs imageElement config = Inr img"
    and "cacheLookup cache img (mergeConfig config) = None"
  shows "fst (detectSpritesFromImage env cache imageElement config) =
     (if useWebWorker (mergeConfig config) \<and> windowWorker env \<and> workerStarts env
      then (case canvasImageData img of
              Inl e \<Rightarrow> Inl (DetectionError e)
            | Inr data \<Rightarrow>
                (case worker_processImageData data (naturalWidth img) (naturalHeight img)
                        (mergeConfig config) of
                   Inl e \<Rightarrow> Inl (WorkerError e) | Inr frames \<Rightarrow> Inr frames))
      else (case callAlgorithm (selectAlgorithm (mergeConfig config)) imageElement
                   (asPartial (mergeConfig config)) of
              Inl e \<Rightarrow> Inl (DetectionError e)
            | Inr outcome \<Rightarrow> outcome))"
proof -
  from assms(1) have "imageElement = Some img"
    by (auto simp: validateInputs_def split: option.splits if_splits)
  with assms show ?thesis
    by (auto simp: detectSpritesFromImage_def processWithWebWorker_def Let_def
        split: sum.splits)
qed

text \<open>
  Claim C8.  \<^verbatim>\<open>contourAlgorithm\<close> and \<^verbatim>\<open>aiDetectionAlgorithm\<close> return what
  \<^verbatim>\<open>floodFillAlgorithm\<close> returns, error or frames, on every image and configuration; and
  a call of \<^verbatim>\<open>detectSpritesFromImage\<close> that is not answered from the cache settles with
  the same outcome whether \<open>algorithm\<close> is \<open>contour\<close>, \<open>ai\<close> or \<open>floodFill\<close>, the other
  fields being the same (the cache key alone tells the three apart).
\<close>

theorem placeholder_algorithms_delegate:
  assumes "cacheLookup cache img (mergeConfig (config\<lparr>p_algorithm := Some ''floodFill''\<rparr>)) = None"
    and "cacheLookup cache img (mergeConfig (config\<lparr>p_algorithm := Some a\<rparr>)) = None"
    and "a = ''contour'' \<or> a = ''ai''"
    and "validateInputs imageElement config = Inr img"
  shows "contourAlgorithm imageElement config = floodFillAlgorithm imageElement config
    \<and> aiDetectionAlgorithm imageElement config = floodFillAlgorithm imageElement config
    \<and> fst (detectSpritesFromImage env cache imageElement (config\<lparr>p_algorithm := Some a\<rparr>)) =
       fst (detectSpritesFromImage env cache imageElement
              (config\<lparr>p_algorithm := Some ''floodFill''\<rparr>))"
proof -
  have v: "validateInputs imageElement (config\<lparr>p_algorithm := Some b\<rparr>) = Inr img" for b
    using assms(4) by (simp add: validateInputs_p_algorithm)
  have w: "worker_processImageData d w h (c\<lparr>algorithm := b\<rparr>) = worker_processImageData d w h c"
    for d w h c b
    by (simp add: worker_processImageData_def scanImage_algorithm split: sum.splits)
  have "fst (detectSpritesFromImage env cache imageElement (config\<lparr>p_algorithm := Some a\<rparr>)) =
       fst (detectSpritesFromImage env cache imageElement
              (config\<lparr>p_algorithm := Some ''floodFill''\<rparr>))"
    unfolding detect_uncached [OF v assms(1)] detect_uncached [OF v assms(2)]
    using assms(3)
    by (auto simp: mergeConfig_algorithm w callAlgorithm_placeholders
        floodFillAlgorithm_algorithm cong: sum.case_cong)
  then show ?thesis
    by (simp add: contourAlgorithm_def aiDetectionAlgorithm_def)
qed


definition noWorkerEnv :: environment where
  "noWorkerEnv = \<lparr> windowWorker = False, workerStarts = False \<rparr>"

theorem placeholder_algorithms_delegate_witness:
  "contourAlgorithm (Some speckImage) emptyConfig = floodFillAlgorithm (Some speckImage) emptyConfig
   \<and> aiDetectionAlgorithm (Some speckImage) emptyConfig
       = floodFillAlgorithm (Some speckImage) emptyConfig
   \<and> fst (detectSpritesFromImage noWorkerEnv [] (Some speckImage)
            (emptyConfig\<lparr>p_algorithm := Some ''contour''\<rparr>)) =
     fst (detectSpritesFromImage noWorkerEnv [] (Some speckImage)
            (emptyConfig\<lparr>p_algorithm := Some ''floodFill''\<rparr>))
   \<and> fst (detectSpritesFromImage noWorkerEnv [] (Some speckImage)
            (emptyConfig\<lparr>p_algorithm := Some ''ai''\<rparr>)) =
     fst (detectSpritesFromImage noWorkerEnv [] (Some speckImage)
            (emptyConfig\<lparr>p_algorithm := Some ''floodFill''\<rparr>))"
proof -
  have l: "cacheLookup [] speckImage c = None" for c
    by (simp add: cacheLookup_def cacheHas_def)
  have v: "validateInputs (Some speckImage) emptyConfig = Inr speckImage"
    by (simp add: validateInputs_def emptyConfig_def speckImage_def imageOf_def)
  from placeholder_algorithms_delegate [OF l l _ v, of "''contour''" noWorkerEnv]
    placeholder_algorithms_delegate [OF l l _ v, of "''ai''" noWorkerEnv]
  show ?thesis by simp
qed

section \<open>Validation and empty images\<close>

definition emptyImage :: image where
  "emptyImage = \<lparr> naturalWidth = 0, naturalHeight = 7, complete = True, pixels = [] \<rparr>"

definition workerEnv :: environment where
  "workerEnv = \<lparr> windowWorker = True, workerStarts = True \<rparr>"

lemma callAlgorithm_own_key:
  assumes "algorithm c \<notin> set objectPrototypeKeys"
  shows "callAlgorithm (selectAlgorithm c) i p = Inr (floodFillAlgorithm i p)"
  using assms
  by (simp add: callAlgorithm_def selectAlgorithm_def detectionAlgorithms_def
      contourAlgorithm_def aiDetectionAlgorithm_def)

lemma validateInputs_merged:
  assumes "validateInputs (Some img) config = Inr img"
  shows "validateInputs (Some img) (asPartial (mergeConfig config)) = Inr img"
  using assms
  by (auto simp: validateInputs_def asPartial_def mergeConfig_def orDefault_def
      DEFAULT_CONFIG_def split: option.splits if_splits)

lemma validateInputs_rejects:
  assumes "(\<exists>t. p_tolerance config = Some t \<and> (t < 0 \<or> 255 < t))
         \<or> (\<exists>m. p_minSpriteSize config = Some m \<and> m < 1)"
  shows "\<exists>e. validateInputs imageElement config = Inl e"
  using assms by (auto simp: validateInputs_def split: option.splits)

lemma floodFillAlgorithm_empty:
  assumes "validateInputs (Some img) config = Inr img"
    and "naturalWidth img = 0 \<or> naturalHeight img = 0"
  shows "floodFillAlgorithm (Some img) config = Inr []"
  using assms by (auto simp: floodFillAlgorithm_def Let_def)

text \<open>
  The half of claim C9 that holds on every route.  When the supplied \<open>tolerance\<close> is
  below 0 or above 255, or the supplied \<open>minSpriteSize\<close> is below 1, \<^verbatim>\<open>validateInputs\<close>
  throws; \<^verbatim>\<open>detectSpritesFromImage\<close> then rejects with that error, wrapped, whatever the
  image, the cache and the browser, leaving the cache as it was, and
  \<^verbatim>\<open>floodFillAlgorithm\<close> rejects likewise: nothing is clamped and no pixel is read.
\<close>

lemma validation_rejects_first:
  assumes "(\<exists>t. p_tolerance config = Some t \<and> (t < 0 \<or> 255 < t))
         \<or> (\<exists>m. p_minSpriteSize config = Some m \<and> m < 1)"
  shows "\<exists>e. validateInputs imageElement config = Inl e
          \<and> detectSpritesFromImage env cache imageElement config =
              (Inl (DetectionError e), cache, Rejected)
          \<and> floodFillAlgorithm imageElement config = Inl (FloodFillError e)"
proof -
  from validateInputs_rejects [OF assms] obtain e where
    "validateInputs imageElement config = Inl e" ..
  then show ?thesis
    by (simp add: detectSpritesFromImage_def floodFillAlgorithm_def)
qed

text \<open>
  An image of width 0 or height 0, on the routes that run the selected algorithm: when
  the call is not answered from the cache and not handed to a started worker, and
  \<open>algorithm\<close> is not the name of a property inherited by the table, the call resolves
  with the empty list.
\<close>

lemma empty_image_off_worker:
  assumes "validateInputs (Some img) config = Inr img"
    and "naturalWidth img = 0 \<or> naturalHeight img = 0"
    and "cacheLookup cache img (mergeConfig config) = None"
    and "\<not> (useWebWorker (mergeConfig config) \<and> windowWorker env \<and> workerStarts env)"
    and "algorithm (mergeConfig config) \<notin> set objectPrototypeKeys"
  shows "fst (detectSpritesFromImage env cache (Some img) config) = Inr []"
proof -
  have "floodFillAlgorithm (Some img) (asPartial (mergeConfig config)) = Inr []"
    using assms(1,2) by (intro floodFillAlgorithm_empty validateInputs_merged)
  then show ?thesis
    unfolding detect_uncached [OF assms(1,3)] if_not_P [OF assms(4)]
    by (simp add: callAlgorithm_own_key [OF assms(5)])
qed

text \<open>
  The same image on the worker route: the canvas read of \<^verbatim>\<open>processWithWebWorker\<close>
  throws, and the call is rejected.
\<close>

lemma empty_image_on_worker:
  assumes "validateInputs (Some img) config = Inr img"
    and "naturalWidth img = 0 \<or> naturalHeight img = 0"
    and "cacheLookup cache img (mergeConfig config) = None"
    and "useWebWorker (mergeConfig config)" "windowWorker env" "workerStarts env"
  shows "detectSpritesFromImage env cache (Some img) config =
     (Inl (DetectionError CanvasException), cache, Rejected)"
  using assms
  by (simp add: detectSpritesFromImage_def processWithWebWorker_def canvasImageData_def Let_def)

text \<open>
  Claim C9, where the code departs from it.  Take the loaded image of width 0 and
  height 7 and the default configuration, which \<^verbatim>\<open>validateInputs\<close> accepts.
  \<^verbatim>\<open>floodFillAlgorithm\<close> resolves with the empty list, by its check of the dimensions, and
  so does \<^verbatim>\<open>detectSpritesFromImage\<close> in a browser without workers.  In a browser whose
  worker starts, which is the route of the default configuration,
  \<^verbatim>\<open>processWithWebWorker\<close> reads the canvas without that check, the read throws, and
  \<^verbatim>\<open>detectSpritesFromImage\<close> rejects.  The call is rejected as well, without a worker,
  when \<open>algorithm\<close> is \<open>constructor\<close>: the table yields \<^verbatim>\<open>Object\<close>, which is no
  strategy.
\<close>

theorem empty_image_rejected_on_worker_route:
  "validateInputs (Some emptyImage) emptyConfig = Inr emptyImage
   \<and> naturalWidth emptyImage = 0
   \<and> useWebWorker (mergeConfig emptyConfig)
   \<and> floodFillAlgorithm (Some emptyImage) emptyConfig = Inr []
   \<and> fst (detectSpritesFromImage noWorkerEnv [] (Some emptyImage) emptyConfig) = Inr []
   \<and> detectSpritesFromImage workerEnv [] (Some emptyImage) emptyConfig =
       (Inl (DetectionError CanvasException), [], Rejected)
   \<and> validateInputs (Some emptyImage) (emptyConfig\<lparr>p_algorithm := Some ''constructor''\<rparr>)
       = Inr emptyImage
   \<and> detectSpritesFromImage noWorkerEnv [] (Some emptyImage)
        (emptyConfig\<lparr>p_algorithm := Some ''constructor''\<rparr>) =
       (Inl (DetectionError TypeError), [], Rejected)"
  by code_simp

section \<open>The worker routes\<close>

definition smallImage :: image where
  "smallImage = imageOf 4 4 (\<lambda>p. if inBlock 1 1 2 2 p then red else white)"

definition cornerImage :: image where
  "cornerImage = imageOf 4 4 (\<lambda>p. if fst p \<in> {0, 3} \<and> snd p \<in> {0, 3} then red else white)"

definition failingWorkerEnv :: environment where
  "failingWorkerEnv = \<lparr> windowWorker = True, workerStarts = False \<rparr>"

lemma cacheGet_cacheSet_present:
  "k \<in> set (map fst cache) \<Longrightarrow> cacheGet (cacheSet cache k v) k = Some v"
  by (induction cache) (auto simp: cacheGet_def cacheSet_def cacheHas_def)

lemma cacheGet_stored:
  assumes "distinct (map fst cache)" "length cache \<le> CACHE_MAX_SIZE"
  shows "cacheGet (manageCacheSize (cacheSet cache k v)) k = Some v
       \<and> cacheHas (manageCacheSize (cacheSet cache k v)) k"
proof (cases "k \<in> set (map fst cache)")
  case True
  from store_present [OF assms(1) True assms(2)] cacheGet_cacheSet_present [OF True, of v]
    cacheSet_present [OF True, of v] True
  show ?thesis by (simp add: cacheHas_def)
next
  case False
  let ?c = "if length cache \<ge> CACHE_MAX_SIZE then tl (cache @ [(k, v)]) else cache @ [(k, v)]"
  have "cache \<noteq> []" if "length cache \<ge> CACHE_MAX_SIZE"
    using that by (auto simp: CACHE_MAX_SIZE_def)
  then have c: "?c = (if length cache \<ge> CACHE_MAX_SIZE then tl cache else cache) @ [(k, v)]"
    by auto
  have "k \<notin> set (map fst (tl cache))" using False by (cases cache) auto
  with False have "map_of ?c k = Some v" "k \<in> set (map fst ?c)"
    unfolding c
    by (auto simp: map_of_eq_None_iff [symmetric] map_add_def simp del: map_of_eq_None_iff)
  with store_new [OF assms(1) False, of v] show ?thesis
    by (simp add: cacheGet_def cacheHas_def)
qed

text \<open>
  After a call that resolved on the in-thread route, on the worker route or from the
  cache, with caching enabled, a second call with the same cache key and without
  \<open>forceRecalculation\<close> is answered from the cache with the same frames.
\<close>

lemma second_call_hits_cache:
  assumes inv: "distinct (map fst cache)" "length cache \<le> CACHE_MAX_SIZE"
    and first: "detectSpritesFromImage env cache (Some img1) config1 = (Inr r, cache1, route1)"
    and route: "route1 \<noteq> FallbackRun"
    and e1: "enableCache (mergeConfig config1)"
    and v2: "validateInputs (Some img2) config2 = Inr img2"
    and key: "getCacheKey img2 (mergeConfig config2) = getCacheKey img1 (mergeConfig config1)"
    and e2: "enableCache (mergeConfig config2)" "\<not> forceRecalculation (mergeConfig config2)"
  shows "detectSpritesFromImage env2 cache1 (Some img2) config2 = (Inr r, cache1, CacheHit)"
proof -
  let ?k = "getCacheKey img1 (mergeConfig config1)"
  have "cacheGet cache1 ?k = Some r \<and> cacheHas cache1 ?k"
    using first route e1 cacheGet_stored [OF inv, of ?k r]
    by (auto simp: detectSpritesFromImage_def processWithWebWorker_def Let_def
        storeResult_def cacheLookup_def validateInputs_def
        split: sum.splits option.splits if_splits)
  with v2 key e2 show ?thesis
    by (simp add: detectSpritesFromImage_def Let_def cacheLookup_def)
qed

text \<open>
  Claim C6, where the code departs from it.  In a browser that has \<^verbatim>\<open>window.Worker\<close>
  but in which the worker cannot be constructed, \<^verbatim>\<open>processWithWebWorker\<close> falls back to
  the selected algorithm and resolves without storing the result.  With the default
  configuration (caching enabled, no forced recalculation) the first call on a 4 by 4
  image with one 2 by 2 block returns its frame and leaves the cache empty, and the
  second, identical call runs the algorithm again instead of being answered from the
  cache.
\<close>

theorem fallback_route_never_caches:
  "enableCache (mergeConfig emptyConfig) \<and> \<not> forceRecalculation (mergeConfig emptyConfig)
   \<and> (case detectSpritesFromImage failingWorkerEnv [] (Some smallImage) emptyConfig of
        (r1, cache1, route1) \<Rightarrow>
          (case detectSpritesFromImage failingWorkerEnv cache1 (Some smallImage) emptyConfig of
             (r2, cache2, route2) \<Rightarrow>
               r1 = Inr [\<lparr> frameId = 0, name = ''sprite_0'',
                           rect = \<lparr> rx = 1, ry = 1, rw = 2, rh = 2 \<rparr>,
                           frameType = ''simple'' \<rparr>]
               \<and> cache1 = [] \<and> route1 = FallbackRun
               \<and> r2 = r1 \<and> cache2 = [] \<and> route2 = FallbackRun))"
  by code_simp

text \<open>
  Claim C3, where the code departs from it.  On a 4 by 4 image whose four corners are red
  and whose other pixels are white, \<^verbatim>\<open>detectBackgroundColor\<close> of the module samples the
  whole border and returns white, while the copy in the worker's source reads the four
  corners only and returns red; with the default configuration the in-thread route then
  finds no sprite and the worker route reports the whole image as one sprite.
\<close>

theorem worker_estimator_reads_corners_only:
  "detectBackgroundColor (pixels cornerImage) 4 4 = Inr white
   \<and> worker_detectBackgroundColor (pixels cornerImage) 4 4 = Inr red
   \<and> fst (detectSpritesFromImage noWorkerEnv [] (Some cornerImage) emptyConfig) = Inr []
   \<and> fst (detectSpritesFromImage workerEnv [] (Some cornerImage) emptyConfig) =
       Inr [\<lparr> frameId = 0, name = ''sprite_0'', rect = \<lparr> rx = 0, ry = 0, rw = 4, rh = 4 \<rparr>,
              frameType = ''simple'' \<rparr>]"
  by code_simp

section \<open>Noise reduction on an arbitrary image\<close>

lemma region_fg:
  assumes "q \<in> region d w h bgColor tol ns V s"
  shows "q = s \<or> (inGrid w h q \<and> idx w q \<notin> V \<and> foreground d w bgColor tol q)"
proof -
  from assms have "(s, q) \<in> (edges d w h bgColor tol ns V)\<^sup>*" by (simp add: region_def)
  then show ?thesis by (cases rule: rtranclE) (auto simp: edges_def)
qed

lemma region_trans:
  "q \<in> region d w h bgColor tol ns V p \<Longrightarrow> r \<in> region d w h bgColor tol ns V q \<Longrightarrow>
   r \<in> region d w h bgColor tol ns V p"
  by (auto simp: region_def)

lemma shifted4_sym: "b \<in> shifted neighbors4 a \<Longrightarrow> a \<in> shifted neighbors4 b"
  by (cases a; cases b) (auto simp: shifted_def neighbors4_def)

lemma edges4_sym:
  assumes "(a, b) \<in> edges d w h bgColor tol neighbors4 {}" "inGrid w h a"
    "foreground d w bgColor tol a"
  shows "(b, a) \<in> edges d w h bgColor tol neighbors4 {}"
  using assms by (auto simp: edges_def dest: shifted4_sym)

lemma region_sym:
  assumes p: "inGrid w h p" "foreground d w bgColor tol p"
    and q: "q \<in> region d w h bgColor tol neighbors4 {} p"
  shows "p \<in> region d w h bgColor tol neighbors4 {} q"
proof -
  let ?E = "edges d w h bgColor tol neighbors4 {}"
  from q have "(p, q) \<in> ?E\<^sup>*" by (simp add: region_def)
  then have "(q, p) \<in> ?E\<^sup>*"
  proof (induction rule: rtrancl_induct)
    case base
    show ?case by simp
  next
    case (step y z)
    from step.hyps(1) have "y \<in> region d w h bgColor tol neighbors4 {} p"
      by (simp add: region_def)
    from region_grid [OF p(1) this] region_fg [OF this] p
    have "inGrid w h y" "foreground d w bgColor tol y" by auto
    from edges4_sym [OF step.hyps(2) this] have "(z, y) \<in> ?E" .
    from this step.IH show ?case by (rule converse_rtrancl_into_rtrancl)
  qed
  then show ?thesis by (simp add: region_def)
qed

lemma region_eq_of_mem:
  assumes p: "inGrid w h p" "foreground d w bgColor tol p"
    and q: "q \<in> region d w h bgColor tol neighbors4 {} p"
  shows "region d w h bgColor tol neighbors4 {} q = region d w h bgColor tol neighbors4 {} p"
  using region_trans [OF q] region_trans [OF region_sym [OF p q]] by blast

text \<open>
  A set of foreground pixels that contains, with each pixel, its whole 4-connected
  region: the pixels the noise filter has repainted so far form such a set.
\<close>

definition regionClosed ::
  "buffer \<Rightarrow> int \<Rightarrow> int \<Rightarrow> color \<Rightarrow> int \<Rightarrow> (int \<times> int) set \<Rightarrow> bool" where
  "regionClosed d0 w h bgColor tol N =
     (\<forall>q \<in> N. inGrid w h q \<and> foreground d0 w bgColor tol q
        \<and> region d0 w h bgColor tol neighbors4 {} q \<subseteq> N)"

definition agreeOutside ::
  "int \<Rightarrow> int \<Rightarrow> (int \<times> int) set \<Rightarrow> buffer \<Rightarrow> buffer \<Rightarrow> bool" where
  "agreeOutside w h N d d0 =
     (\<forall>n. inGrid w h n \<and> n \<notin> N \<longrightarrow> pixelAt d (idx w n * 4) = pixelAt d0 (idx w n * 4))"

lemma foreground_agree:
  "agreeOutside w h N d d0 \<Longrightarrow> inGrid w h n \<Longrightarrow> n \<notin> N \<Longrightarrow>
   foreground d w bgColor tol n = foreground d0 w bgColor tol n"
proof -
  assume "agreeOutside w h N d d0" "inGrid w h n" "n \<notin> N"
  then have "pixelAt d (idx w n * 4) = pixelAt d0 (idx w n * 4)"
    unfolding agreeOutside_def by blast
  from isBackgroundColor_pixelAt [OF this] show ?thesis
    by (simp add: foreground_def)
qed

lemma region_stable:
  assumes cl: "regionClosed d0 w h bgColor tol N"
    and ag: "agreeOutside w h N d d0"
    and p: "inGrid w h p" "foreground d0 w bgColor tol p" "p \<notin> N"
    and V: "V \<subseteq> idx w ` N"
  shows "region d w h bgColor tol neighbors4 V p = region d0 w h bgColor tol neighbors4 {} p"
proof (rule region_eqI)
  let ?C = "region d0 w h bgColor tol neighbors4 {} p"
  let ?F = "edges d0 w h bgColor tol neighbors4 {}"
  let ?E = "edges d w h bgColor tol neighbors4 V"
  have Cg: "\<And>q. q \<in> ?C \<Longrightarrow> inGrid w h q \<and> foreground d0 w bgColor tol q"
    using region_grid [OF p(1)] region_fg [of _ d0 w h bgColor tol neighbors4 "{}" p] p(1,2)
    by blast
  have CN: "q \<notin> N" if "q \<in> ?C" for q
  proof
    assume "q \<in> N"
    with cl have "region d0 w h bgColor tol neighbors4 {} q \<subseteq> N"
      by (simp add: regionClosed_def)
    with region_sym [OF p(1,2) that] p(3) show False by blast
  qed
  have NV: "idx w q \<notin> V" if "q \<in> ?C" for q
  proof
    assume "idx w q \<in> V"
    with V obtain m where m: "m \<in> N" "idx w m = idx w q" by auto
    with cl have "inGrid w h m" by (simp add: regionClosed_def)
    from idx_inj [OF this _ m(2)] Cg [OF that] m(1) CN [OF that] show False by simp
  qed
  have path: "(p, q) \<in> ?E\<^sup>*" if "(p, q) \<in> ?F\<^sup>*" for q
    using that
  proof (induction rule: rtrancl_induct)
    case base
    show ?case by simp
  next
    case (step y z)
    have y: "y \<in> ?C" using \<open>(p, y) \<in> ?F\<^sup>*\<close> by (simp add: region_def)
    have z: "z \<in> ?C" using region_step [OF y \<open>(y, z) \<in> ?F\<close>] .
    have "foreground d w bgColor tol z"
      using foreground_agree [OF ag _ CN [OF z]] Cg [OF z] by simp
    with \<open>(y, z) \<in> ?F\<close> NV [OF z] have "(y, z) \<in> ?E" by (simp add: edges_def)
    with \<open>(p, y) \<in> ?E\<^sup>*\<close> show ?case by (rule rtrancl_into_rtrancl)
  qed
  have closed: "r \<in> ?C" if q: "q \<in> ?C" and e: "(q, r) \<in> ?E" for q r
  proof -
    from e have r: "r \<in> shifted neighbors4 q" "inGrid w h r" "foreground d w bgColor tol r"
      by (simp_all add: edges_def)
    have "r \<notin> N"
    proof
      assume rN: "r \<in> N"
      with cl have rf: "foreground d0 w bgColor tol r"
        and rr: "region d0 w h bgColor tol neighbors4 {} r \<subseteq> N"
        by (simp_all add: regionClosed_def)
      have "(r, q) \<in> ?F"
        using shifted4_sym [OF r(1)] Cg [OF q] by (simp add: edges_def)
      then have "q \<in> region d0 w h bgColor tol neighbors4 {} r"
        by (auto simp: region_def)
      with rr CN [OF q] show False by blast
    qed
    from foreground_agree [OF ag r(2) this] r have "(q, r) \<in> ?F"
      by (simp add: edges_def)
    from region_step [OF q this] show "r \<in> ?C" .
  qed
  show "p \<in> ?C" by (rule region_start)
  show "\<And>q. q \<in> ?C \<Longrightarrow> (p, q) \<in> ?E\<^sup>*"
    using path by (simp add: region_def)
  show "\<And>q r. q \<in> ?C \<Longrightarrow> (q, r) \<in> ?E \<Longrightarrow> r \<in> ?C"
    using closed .
qed


definition smallRegion ::
  "buffer \<Rightarrow> int \<Rightarrow> int \<Rightarrow> color \<Rightarrow> int \<Rightarrow> int \<Rightarrow> int \<times> int \<Rightarrow> bool" where
  "smallRegion d0 w h bgColor tol threshold p =
     (inGrid w h p \<and> foreground d0 w bgColor tol p
      \<and> int (card (region d0 w h bgColor tol neighbors4 {} p)) \<le> threshold)"

definition noisePixels ::
  "buffer \<Rightarrow> int \<Rightarrow> int \<Rightarrow> color \<Rightarrow> int \<Rightarrow> int \<Rightarrow> (int \<times> int) set \<Rightarrow> (int \<times> int) set" where
  "noisePixels d0 w h bgColor tol threshold P =
     {q. \<exists>p \<in> P. smallRegion d0 w h bgColor tol threshold p
            \<and> q \<in> region d0 w h bgColor tol neighbors4 {} p}"

definition noiseInv ::
  "buffer \<Rightarrow> int \<Rightarrow> int \<Rightarrow> color \<Rightarrow> int \<Rightarrow> int \<Rightarrow> (int \<times> int) set \<Rightarrow> buffer \<times> int set \<Rightarrow> bool"
  where
  "noiseInv d0 w h bgColor tol threshold P st =
     (case st of (d, V) \<Rightarrow>
        V = idx w ` noisePixels d0 w h bgColor tol threshold P
        \<and> length d = length d0
        \<and> (\<forall>n. inGrid w h n \<longrightarrow>
              pixelAt d (idx w n * 4) =
                (if n \<in> noisePixels d0 w h bgColor tol threshold P then sampleOf bgColor
                 else pixelAt d0 (idx w n * 4))))"

lemma noisePixels_closed:
  "regionClosed d0 w h bgColor tol (noisePixels d0 w h bgColor tol threshold P)"
  unfolding regionClosed_def
proof
  fix q assume "q \<in> noisePixels d0 w h bgColor tol threshold P"
  then obtain p where p: "p \<in> P" "smallRegion d0 w h bgColor tol threshold p"
    "q \<in> region d0 w h bgColor tol neighbors4 {} p"
    by (auto simp: noisePixels_def)
  from p(2) have pg: "inGrid w h p" "foreground d0 w bgColor tol p"
    by (simp_all add: smallRegion_def)
  have "inGrid w h q" using region_grid [OF pg(1) p(3)] .
  moreover have "foreground d0 w bgColor tol q" using region_fg [OF p(3)] pg(2) by auto
  moreover have "region d0 w h bgColor tol neighbors4 {} q
      \<subseteq> noisePixels d0 w h bgColor tol threshold P"
    unfolding region_eq_of_mem [OF pg p(3)] using p(1,2) by (auto simp: noisePixels_def)
  ultimately show "inGrid w h q \<and> foreground d0 w bgColor tol q
      \<and> region d0 w h bgColor tol neighbors4 {} q \<subseteq> noisePixels d0 w h bgColor tol threshold P"
    by blast
qed

lemma noisePixels_insert:
  "noisePixels d0 w h bgColor tol threshold (insert p P) =
     noisePixels d0 w h bgColor tol threshold P
     \<union> (if smallRegion d0 w h bgColor tol threshold p
        then region d0 w h bgColor tol neighbors4 {} p else {})"
  by (auto simp: noisePixels_def)

lemma noiseStep_inv:
  assumes len0: "int (length d0) = w * h * 4" and bgv: "validColor bgColor"
    and inv: "noiseInv d0 w h bgColor tol threshold P st" and g: "inGrid w h (x, y)"
  shows "noiseInv d0 w h bgColor tol threshold (insert (x, y) P)
           (noiseStep w h bgColor tol threshold y x st)"
proof -
  let ?p = "(x, y)"
  let ?N = "noisePixels d0 w h bgColor tol threshold P"
  let ?C = "region d0 w h bgColor tol neighbors4 {} ?p"
  obtain d V where st: "st = (d, V)" by (cases st)
  from inv have V: "V = idx w ` ?N" and len: "length d = length d0"
    and px: "\<And>n. inGrid w h n \<Longrightarrow> pixelAt d (idx w n * 4) =
                (if n \<in> ?N then sampleOf bgColor else pixelAt d0 (idx w n * 4))"
    by (simp_all add: noiseInv_def st del: split_paired_All)
  have cl: "regionClosed d0 w h bgColor tol ?N" by (rule noisePixels_closed)
  have ag: "agreeOutside w h ?N d d0" using px by (simp add: agreeOutside_def)
  have same: "noiseInv d0 w h bgColor tol threshold (insert ?p P) (d, V)"
    if "noisePixels d0 w h bgColor tol threshold (insert ?p P) = ?N"
    using inv that by (simp add: noiseInv_def st)
  show ?thesis
  proof (cases "idx w ?p \<in> V")
    case True
    then obtain m where m: "m \<in> ?N" "idx w m = idx w ?p" unfolding V by auto
    with cl have "inGrid w h m" by (simp add: regionClosed_def)
    from idx_inj [OF this g m(2)] m(1) have "?p \<in> ?N" by simp
    with cl have "?C \<subseteq> ?N" by (simp add: regionClosed_def)
    then have "noisePixels d0 w h bgColor tol threshold (insert ?p P) = ?N"
      by (auto simp: noisePixels_insert)
    moreover have "noiseStep w h bgColor tol threshold y x st = (d, V)"
      using True by (simp add: noiseStep_def st Let_def idx_xy)
    ultimately show ?thesis using same by simp
  next
    case False
    then have pN: "?p \<notin> ?N" unfolding V by auto
    have fgeq: "foreground d w bgColor tol ?p = foreground d0 w bgColor tol ?p"
      using foreground_agree [OF ag g pN] .
    show ?thesis
    proof (cases "foreground d0 w bgColor tol ?p")
      case nofg: False
      then have "\<not> smallRegion d0 w h bgColor tol threshold ?p" by (simp add: smallRegion_def)
      then have "noisePixels d0 w h bgColor tol threshold (insert ?p P) = ?N"
        by (simp add: noisePixels_insert)
      moreover have "isBackgroundColor d ((y * w + x) * 4) bgColor tol"
        using nofg fgeq by (simp only: fg_xy) simp
      then have "noiseStep w h bgColor tol threshold y x st = (d, V)"
        by (simp add: noiseStep_def st Let_def del: distrib_right_numeral distrib_left_numeral)
      ultimately show ?thesis using same by simp
    next
      case fg: True
      have r0: "region d w h bgColor tol neighbors4 {} ?p = ?C"
        using cl ag g fg pN by (rule region_stable) simp
      have rV: "region d w h bgColor tol neighbors4 V ?p = ?C"
        using cl ag g fg pN by (rule region_stable) (simp add: V)
      have cnt: "countConnectedPixels x y w h d bgColor tol = int (card ?C)"
        using countConnectedPixels_region [OF g] r0 by simp
      have nb: "\<not> (y * w + x \<in> V \<or> isBackgroundColor d ((y * w + x) * 4) bgColor tol)"
        using False fg fgeq by (simp only: fg_xy idx_xy) simp
      show ?thesis
      proof (cases "int (card ?C) \<le> threshold")
        case big: False
        then have "\<not> smallRegion d0 w h bgColor tol threshold ?p" by (simp add: smallRegion_def)
        then have "noisePixels d0 w h bgColor tol threshold (insert ?p P) = ?N"
          by (simp add: noisePixels_insert)
        moreover have "noiseStep w h bgColor tol threshold y x st = (d, V)"
          using nb big cnt
          by (simp add: noiseStep_def st Let_def del: distrib_right_numeral distrib_left_numeral)
        ultimately show ?thesis using same by simp
      next
        case small: True
        then have sm: "smallRegion d0 w h bgColor tol threshold ?p"
          using g fg by (simp add: smallRegion_def)
        have N': "noisePixels d0 w h bgColor tol threshold (insert ?p P) = ?N \<union> ?C"
          using sm by (simp add: noisePixels_insert)
        obtain df Vf where mk: "markNoisePixels x y w h d V bgColor tol = (df, Vf)"
          by (cases "markNoisePixels x y w h d V bgColor tol")
        have lend: "int (length d) = w * h * 4" using len len0 by simp
        from markNoisePixels_region [OF g False lend bgv mk]
        have Vf: "Vf = V \<union> idx w ` ?C" and lenf: "length df = length d"
          and pf: "\<And>n. inGrid w h n \<Longrightarrow> pixelAt df (idx w n * 4) =
              (if n \<in> ?C then sampleOf bgColor else pixelAt d (idx w n * 4))"
          unfolding rV by blast+
        have step: "noiseStep w h bgColor tol threshold y x st = (df, Vf)"
          using nb small cnt mk
          by (simp add: noiseStep_def st Let_def del: distrib_right_numeral distrib_left_numeral)
        have "Vf = idx w ` (?N \<union> ?C)" using Vf V by auto
        moreover have "length df = length d0" using lenf len by simp
        moreover have "\<forall>n. inGrid w h n \<longrightarrow> pixelAt df (idx w n * 4) =
              (if n \<in> ?N \<union> ?C then sampleOf bgColor else pixelAt d0 (idx w n * 4))"
          using pf px by simp
        ultimately show ?thesis
          unfolding step noiseInv_def N' by simp
      qed
    qed
  qed
qed

lemma noiseScan_inv:
  assumes len0: "int (length d0) = w * h * 4" and bgv: "validColor bgColor"
  shows "noiseInv d0 w h bgColor tol threshold {p. inGrid w h p}
           (forRange h (\<lambda>y. forRange w (noiseStep w h bgColor tol threshold y)) (d0, {}))"
proof (rule scan_rule)
  show "noiseInv d0 w h bgColor tol threshold {} (d0, {})"
    by (simp add: noiseInv_def noisePixels_def)
next
  fix P :: "(int \<times> int) set" and x y :: int and st :: "buffer \<times> int set"
  assume "noiseInv d0 w h bgColor tol threshold P st" "inGrid w h (x, y)"
  with len0 bgv
  show "noiseInv d0 w h bgColor tol threshold (insert (x, y) P)
          (noiseStep w h bgColor tol threshold y x st)"
    by (rule noiseStep_inv)
qed

text \<open>
  What \<^verbatim>\<open>applyNoiseReduction\<close> does to every pixel of the image: a pixel of a region of at
  most \<open>config.noiseThreshold || 2\<close> pixels reads as \<open>bgColor\<close> afterwards, in all four
  channels, and every other pixel is as it was.
\<close>

lemma applyNoiseReduction_pixels:
  assumes "enableNoiseReduction config" "int (length d0) = w * h * 4" "validColor bgColor"
    "inGrid w h n"
  shows "pixelAt (applyNoiseReduction d0 w h bgColor config) (idx w n * 4) =
     (if n \<in> noisePixels d0 w h bgColor (tolerance config) (thresholdOf config) {p. inGrid w h p}
      then sampleOf bgColor else pixelAt d0 (idx w n * 4))"
proof -
  obtain df Vf where r: "forRange h (\<lambda>y. forRange w
      (noiseStep w h bgColor (tolerance config) (thresholdOf config) y)) (d0, {}) = (df, Vf)"
    by (cases "forRange h (\<lambda>y. forRange w
      (noiseStep w h bgColor (tolerance config) (thresholdOf config) y)) (d0, {})")
  from noiseScan_inv [OF assms(2,3), of "tolerance config" "thresholdOf config"] assms(4)
  have "pixelAt df (idx w n * 4) =
     (if n \<in> noisePixels d0 w h bgColor (tolerance config) (thresholdOf config) {p. inGrid w h p}
      then sampleOf bgColor else pixelAt d0 (idx w n * 4))"
    unfolding r by (simp add: noiseInv_def del: split_paired_All)
  with assms(1) r show ?thesis
    by (simp add: applyNoiseReduction_def Let_def)
qed

subsection \<open>The estimated background colour is a colour of bytes\<close>









subsection \<open>Every frame comes from foreground pixels\<close>










definition twoPixelImage :: image where
  "twoPixelImage = imageOf 4 4 (\<lambda>p. if inBlock 1 1 2 1 p then red else white)"

section \<open>Small regions are repainted before the scan\<close>









section \<open>A noise threshold of 0 is read as 2\<close>

lemma applyNoiseReduction_threshold:
  "thresholdOf c = thresholdOf c' \<Longrightarrow> tolerance c = tolerance c' \<Longrightarrow>
   enableNoiseReduction c = enableNoiseReduction c' \<Longrightarrow>
   applyNoiseReduction d w h bgColor c = applyNoiseReduction d w h bgColor c'"
  by (simp add: applyNoiseReduction_def)

lemma applyNoiseReduction_region:
  assumes "enableNoiseReduction c" "int (length d) = w * h * 4" "validColor bgColor"
    "inGrid w h p" "foreground d w bgColor (tolerance c) p"
    "int (card (region d w h bgColor (tolerance c) neighbors4 {} p)) \<le> thresholdOf c"
    "q \<in> region d w h bgColor (tolerance c) neighbors4 {} p"
  shows "pixelAt (applyNoiseReduction d w h bgColor c) (idx w q * 4) = sampleOf bgColor"
proof -
  have "smallRegion d w h bgColor (tolerance c) (thresholdOf c) p"
    using assms(4,5,6) by (simp add: smallRegion_def)
  then have "q \<in> noisePixels d w h bgColor (tolerance c) (thresholdOf c) {p. inGrid w h p}"
    unfolding noisePixels_def using assms(4,7)
    by (intro CollectI bexI [of _ p]) simp_all
  moreover have "inGrid w h q" using region_grid [OF assms(4,7)] .
  ultimately show ?thesis
    using applyNoiseReduction_pixels [OF assms(1,2,3)] by simp
qed

text \<open>
  Claim C10.  \<^verbatim>\<open>config.noiseThreshold || 2\<close> is 2 when \<open>noiseThreshold\<close> is 0 or
  \<^verbatim>\<open>undefined\<close>; a caller's \<open>noiseThreshold: 0\<close> reaches the filter as 0 and the filter
  then does exactly what it does for the threshold 2.  So with noise reduction enabled and
  such a threshold, every pixel of a 4-connected foreground region of at most 2 pixels is
  overwritten with the background colour.
\<close>

theorem zero_noise_threshold_is_two:
  "noiseThreshold (mergeConfig (config\<lparr>p_noiseThreshold := Some (Some 0)\<rparr>)) = Some 0
   \<and> thresholdOf (c\<lparr>noiseThreshold := Some 0\<rparr>) = 2
   \<and> thresholdOf (c\<lparr>noiseThreshold := None\<rparr>) = 2
   \<and> applyNoiseReduction d w h bgColor (c\<lparr>noiseThreshold := Some 0\<rparr>) =
       applyNoiseReduction d w h bgColor (c\<lparr>noiseThreshold := Some 2\<rparr>)
   \<and> applyNoiseReduction d w h bgColor (c\<lparr>noiseThreshold := None\<rparr>) =
       applyNoiseReduction d w h bgColor (c\<lparr>noiseThreshold := Some 2\<rparr>)
   \<and> (enableNoiseReduction c \<and> (noiseThreshold c = Some 0 \<or> noiseThreshold c = None)
        \<and> int (length d) = w * h * 4 \<and> validColor bgColor
        \<and> inGrid w h p \<and> foreground d w bgColor (tolerance c) p
        \<and> int (card (region d w h bgColor (tolerance c) neighbors4 {} p)) \<le> 2 \<longrightarrow>
      (\<forall>q \<in> region d w h bgColor (tolerance c) neighbors4 {} p.
         pixelAt (applyNoiseReduction d w h bgColor c) (idx w q * 4) = sampleOf bgColor))"
proof -
  have 1: "noiseThreshold (mergeConfig (config\<lparr>p_noiseThreshold := Some (Some 0)\<rparr>)) = Some 0"
    by (simp add: mergeConfig_def orDefault_def)
  have 2: "thresholdOf (c\<lparr>noiseThreshold := Some 0\<rparr>) = 2"
    "thresholdOf (c\<lparr>noiseThreshold := None\<rparr>) = 2"
    "thresholdOf (c\<lparr>noiseThreshold := Some 2\<rparr>) = 2"
    by (simp_all add: thresholdOf_def)
  have 3: "applyNoiseReduction d w h bgColor (c\<lparr>noiseThreshold := Some 0\<rparr>) =
       applyNoiseReduction d w h bgColor (c\<lparr>noiseThreshold := Some 2\<rparr>)"
    "applyNoiseReduction d w h bgColor (c\<lparr>noiseThreshold := None\<rparr>) =
       applyNoiseReduction d w h bgColor (c\<lparr>noiseThreshold := Some 2\<rparr>)"
    by (rule applyNoiseReduction_threshold; simp add: 2)+
  have 4: "\<forall>q \<in> region d w h bgColor (tolerance c) neighbors4 {} p.
         pixelAt (applyNoiseReduction d w h bgColor c) (idx w q * 4) = sampleOf bgColor"
    if a: "enableNoiseReduction c \<and> (noiseThreshold c = Some 0 \<or> noiseThreshold c = None)
        \<and> int (length d) = w * h * 4 \<and> validColor bgColor
        \<and> inGrid w h p \<and> foreground d w bgColor (tolerance c) p
        \<and> int (card (region d w h bgColor (tolerance c) neighbors4 {} p)) \<le> 2"
  proof
    fix q assume q: "q \<in> region d w h bgColor (tolerance c) neighbors4 {} p"
    from a have "thresholdOf c = 2" by (auto simp: thresholdOf_def)
    with a q show "pixelAt (applyNoiseReduction d w h bgColor c) (idx w q * 4) = sampleOf bgColor"
      by (intro applyNoiseReduction_region [of c d w h bgColor p q]) simp_all
  qed
  from 1 2(1,2) 3 4 show ?thesis by blast
qed

lemma twoPixel_length: "int (length (pixels twoPixelImage)) = 4 * 4 * 4"
  by code_simp

lemma twoPixel_foreground: "foreground (pixels twoPixelImage) 4 white 10 (1, 1)"
  by code_simp

lemma twoPixel_count: "countConnectedPixels 1 1 4 4 (pixels twoPixelImage) white 10 = 2"
  by code_simp

lemma twoPixel_detection:
  "floodFillAlgorithm (Some twoPixelImage)
     (emptyConfig\<lparr>p_minSpriteSize := Some 1, p_noiseThreshold := Some (Some 0)\<rparr>) = Inr []"
  by code_simp

theorem zero_noise_threshold_is_two_witness:
  "pixelAt (applyNoiseReduction (pixels twoPixelImage) 4 4 white
              (mergeConfig (emptyConfig\<lparr>p_minSpriteSize := Some 1,
                                        p_noiseThreshold := Some (Some 0)\<rparr>)))
     (idx 4 (1, 1) * 4) = sampleOf white
   \<and> floodFillAlgorithm (Some twoPixelImage)
       (emptyConfig\<lparr>p_minSpriteSize := Some 1, p_noiseThreshold := Some (Some 0)\<rparr>) = Inr []"
proof -
  let ?cfg = "mergeConfig (emptyConfig\<lparr>p_minSpriteSize := Some 1,
                                        p_noiseThreshold := Some (Some 0)\<rparr>)"
  let ?C = "region (pixels twoPixelImage) 4 4 white (tolerance ?cfg) neighbors4 {} (1, 1)"
  have cfg: "tolerance ?cfg = 10" "noiseThreshold ?cfg = Some 0" "enableNoiseReduction ?cfg"
    by (simp_all add: mergeConfig_def emptyConfig_def DEFAULT_CONFIG_def orDefault_def)
  have g: "inGrid 4 4 (1, 1)" by (simp add: inGrid_def)
  have fg: "foreground (pixels twoPixelImage) 4 white (tolerance ?cfg) (1, 1)"
    using twoPixel_foreground by (simp only: cfg)
  have card: "int (card ?C) \<le> 2"
    using countConnectedPixels_region [OF g, of "pixels twoPixelImage" white 10] twoPixel_count
    by (simp only: cfg)
  have mem: "(1, 1) \<in> ?C" by (rule region_start)
  have v: "validColor white" by (simp add: validColor_def white_def)
  from zero_noise_threshold_is_two [of emptyConfig ?cfg "pixels twoPixelImage" 4 4 white "(1, 1)"]
    cfg(2,3) twoPixel_length v g fg card mem
  have "pixelAt (applyNoiseReduction (pixels twoPixelImage) 4 4 white ?cfg) (idx 4 (1, 1) * 4)
      = sampleOf white"
    by blast
  with twoPixel_detection show ?thesis by simp
qed

section \<open>Two blocks of foreground\<close>

lemma shifted8_sym:
  assumes "b \<in> shifted neighbors8 a"
  shows "a \<in> shifted neighbors8 b"
proof -
  from assms obtain d where d: "d \<in> set neighbors8" "b = (fst a + fst d, snd a + snd d)"
    by (auto simp: shifted_def)
  from d(1) have "d \<in> {(-1, -1), (-1, 0), (-1, 1), (0, -1), (0, 1), (1, -1), (1, 0), (1, 1)}"
    by (simp add: neighbors8_def)
  then have "(- fst d, - snd d) \<in> set neighbors8"
    unfolding neighbors8_def by (elim insertE emptyE) simp_all
  moreover have "a = (fst b + fst (- fst d, - snd d), snd b + snd (- fst d, - snd d))"
    using d(2) by simp
  ultimately show ?thesis unfolding shifted_def by (rule image_eqI [rotated])
qed

lemma idx_image_disjoint:
  assumes "A \<subseteq> {p. inGrid w h p}" "inGrid w h q" "q \<notin> A"
  shows "idx w q \<notin> idx w ` A"
proof
  assume "idx w q \<in> idx w ` A"
  then obtain p where p: "p \<in> A" "idx w q = idx w p" by auto
  with assms(1) have "inGrid w h p" by auto
  from idx_inj [OF assms(2) this p(2)] p(1) assms(3) show False by simp
qed


text \<open>The scan of an image whose foreground is one region of the connectivity in force.\<close>

lemma scanImage_one_region:
  assumes ne: "C \<noteq> {}"
    and sub: "C \<subseteq> {p. inGrid w h p}"
    and fg: "\<And>p. inGrid w h p \<Longrightarrow> foreground data w bgColor (tolerance config) p = (p \<in> C)"
    and reg: "\<And>p. p \<in> C \<Longrightarrow>
        region data w h bgColor (tolerance config)
          (if use8WayConnectivity config then neighbors8 else neighbors4) {} p = C"
  shows "fst (snd (scanImage data w h bgColor config)) =
     (if minSpriteSize config \<le> int (card C)
      then [mkFrame 0 (Min (fst ` C)) (Min (snd ` C)) (Max (fst ` C)) (Max (snd ` C))] else [])"
proof -
  let ?F = "if minSpriteSize config \<le> int (card C)
      then [mkFrame 0 (Min (fst ` C)) (Min (snd ` C)) (Max (fst ` C)) (Max (snd ` C))] else []"
  define I where "I P st = (if P \<inter> C = {} then st = ({}, [], 0)
      else st = (idx w ` C, ?F, int (card C)))" for P :: "(int \<times> int) set"
    and st :: "int set \<times> frame list \<times> int"
  have "I {p. inGrid w h p}
          (forRange h (\<lambda>y. forRange w (scanStep data w h bgColor config y)) ({}, [], 0))"
  proof (rule scan_rule)
    show "I {} ({}, [], 0)" by (simp add: I_def)
  next
    fix P :: "(int \<times> int) set" and x y :: int and st :: "int set \<times> frame list \<times> int"
    assume st: "I P st" and g: "inGrid w h (x, y)"
    show "I (insert (x, y) P) (scanStep data w h bgColor config y x st)"
    proof (cases "P \<inter> C = {}")
      case True
      with st have st': "st = ({}, [], 0)" by (simp add: I_def)
      show ?thesis
      proof (cases "(x, y) \<in> C")
        case False
        with True have "insert (x, y) P \<inter> C = {}" by simp
        moreover have "scanStep data w h bgColor config y x st = st"
          unfolding st' using False fg [OF g] by (intro scanStep_skip) simp
        ultimately show ?thesis using st' True False by (simp add: I_def)
      next
        case in_C: True
        then have ne: "insert (x, y) P \<inter> C \<noteq> {}" by auto
        have f: "foreground data w bgColor (tolerance config) (x, y)"
          using in_C fg [OF g] by simp
        have "scanStep data w h bgColor config y x st = (idx w ` C, ?F, int (card C))"
          unfolding st' scanStep_fill [OF g _ f, of "{}", simplified] Let_def reg [OF in_C]
          by simp
        with ne in_C show ?thesis by (simp add: I_def)
      qed
    next
      case False
      with st have st': "st = (idx w ` C, ?F, int (card C))" by (simp add: I_def)
      have "idx w (x, y) \<in> idx w ` C \<or> \<not> foreground data w bgColor (tolerance config) (x, y)"
        using fg [OF g] by auto
      then have "scanStep data w h bgColor config y x st = st"
        unfolding st' by (rule scanStep_skip)
      then show ?thesis using st' False by (simp add: I_def)
    qed
  qed
  moreover have "{p. inGrid w h p} \<inter> C \<noteq> {}" using ne sub by auto
  ultimately show ?thesis by (simp add: I_def scanImage_def)
qed

text \<open>
  The scan of an image whose foreground is two regions, the first of which has a pixel
  that precedes, in scan order, every pixel of the second.
\<close>

lemma scanImage_two_regions:
  assumes subA: "A \<subseteq> {p. inGrid w h p}" and subB: "B \<subseteq> {p. inGrid w h p}"
    and disj: "A \<inter> B = {}" and neB: "B \<noteq> {}"
    and fg: "\<And>p. inGrid w h p \<Longrightarrow>
               foreground data w bgColor (tolerance config) p = (p \<in> A \<or> p \<in> B)"
    and regA: "\<And>p. p \<in> A \<Longrightarrow>
        region data w h bgColor (tolerance config)
          (if use8WayConnectivity config then neighbors8 else neighbors4) {} p = A"
    and regB: "\<And>p. p \<in> B \<Longrightarrow>
        region data w h bgColor (tolerance config)
          (if use8WayConnectivity config then neighbors8 else neighbors4) (idx w ` A) p = B"
    and first: "a \<in> A" "\<And>q. q \<in> B \<Longrightarrow> snd a < snd q \<or> snd a = snd q \<and> fst a < fst q"
  shows "fst (snd (scanImage data w h bgColor config)) =
     (let FA = (if minSpriteSize config \<le> int (card A)
                then [mkFrame 0 (Min (fst ` A)) (Min (snd ` A)) (Max (fst ` A)) (Max (snd ` A))]
                else [])
      in if minSpriteSize config \<le> int (card B)
         then FA @ [mkFrame (length FA) (Min (fst ` B)) (Min (snd ` B))
                      (Max (fst ` B)) (Max (snd ` B))]
         else FA)"
proof -
  define FA where "FA = (if minSpriteSize config \<le> int (card A)
                then [mkFrame 0 (Min (fst ` A)) (Min (snd ` A)) (Max (fst ` A)) (Max (snd ` A))]
                else [])"
  define FB where "FB = (if minSpriteSize config \<le> int (card B)
         then FA @ [mkFrame (length FA) (Min (fst ` B)) (Min (snd ` B))
                      (Max (fst ` B)) (Max (snd ` B))]
         else FA)"
  define sA :: "int set \<times> frame list \<times> int" where "sA = (idx w ` A, FA, int (card A))"
  define sB :: "int set \<times> frame list \<times> int"
    where "sB = (idx w ` A \<union> idx w ` B, FB, int (card A) + int (card B))"
  define I where "I P st = (if P \<inter> B \<noteq> {} then st = sB
      else if P \<inter> A \<noteq> {} then st = sA else st = ({}, [], 0))" for P :: "(int \<times> int) set"
    and st :: "int set \<times> frame list \<times> int"
  have "I {p. inGrid w h p}
          (forRange h (\<lambda>y. forRange w (scanStep data w h bgColor config y)) ({}, [], 0))"
  proof (rule scan_rule)
    show "I {} ({}, [], 0)" by (simp add: I_def)
  next
    fix P :: "(int \<times> int) set" and x y :: int and st :: "int set \<times> frame list \<times> int"
    assume st: "I P st" and g: "inGrid w h (x, y)"
      and pre: "P = {q. inGrid w h q \<and> (snd q < y \<or> snd q = y \<and> fst q < x)}"
    consider (both) "P \<inter> B \<noteq> {}" | (onlyA) "P \<inter> B = {}" "P \<inter> A \<noteq> {}"
      | (none) "P \<inter> B = {}" "P \<inter> A = {}" by blast
    then show "I (insert (x, y) P) (scanStep data w h bgColor config y x st)"
    proof cases
      case both
      with st have st': "st = sB" by (simp add: I_def)
      have "idx w (x, y) \<in> idx w ` A \<union> idx w ` B
          \<or> \<not> foreground data w bgColor (tolerance config) (x, y)"
        using fg [OF g] by auto
      then have "scanStep data w h bgColor config y x st = st"
        unfolding st' sB_def by (rule scanStep_skip)
      moreover have "insert (x, y) P \<inter> B \<noteq> {}" using both by auto
      ultimately show ?thesis using st' by (simp add: I_def)
    next
      case onlyA
      with st have st': "st = sA" by (simp add: I_def)
      show ?thesis
      proof (cases "(x, y) \<in> B")
        case True
        then have notA: "(x, y) \<notin> A" using disj by auto
        have nv: "idx w (x, y) \<notin> idx w ` A" using subA g notA by (rule idx_image_disjoint)
        have f: "foreground data w bgColor (tolerance config) (x, y)"
          using True fg [OF g] by simp
        have "scanStep data w h bgColor config y x st = sB"
          unfolding st' sA_def scanStep_fill [OF g nv f] Let_def regB [OF True]
          by (simp add: sB_def FB_def)
        moreover have "insert (x, y) P \<inter> B \<noteq> {}" using True by auto
        ultimately show ?thesis by (simp add: I_def)
      next
        case False
        have "idx w (x, y) \<in> idx w ` A \<or> \<not> foreground data w bgColor (tolerance config) (x, y)"
          using fg [OF g] False by auto
        then have "scanStep data w h bgColor config y x st = st"
          unfolding st' sA_def by (rule scanStep_skip)
        moreover have "insert (x, y) P \<inter> B = {}" using False onlyA by auto
        moreover have "insert (x, y) P \<inter> A \<noteq> {}" using onlyA by auto
        ultimately show ?thesis using st' by (simp add: I_def)
      qed
    next
      case none
      with st have st': "st = ({}, [], 0)" by (simp add: I_def)
      have notB: "(x, y) \<notin> B"
      proof
        assume "(x, y) \<in> B"
        from first(2) [OF this] have "snd a < y \<or> snd a = y \<and> fst a < x" by simp
        moreover have "inGrid w h a" using first(1) subA by auto
        ultimately have "a \<in> P" unfolding pre by simp
        with first(1) none(2) show False by auto
      qed
      then have nB: "insert (x, y) P \<inter> B = {}" using none by auto
      show ?thesis
      proof (cases "(x, y) \<in> A")
        case True
        have f: "foreground data w bgColor (tolerance config) (x, y)"
          using True fg [OF g] by simp
        have "scanStep data w h bgColor config y x st = sA"
          unfolding st' scanStep_fill [OF g _ f, of "{}", simplified] Let_def regA [OF True]
          by (simp add: sA_def FA_def)
        moreover have "insert (x, y) P \<inter> A \<noteq> {}" using True by auto
        ultimately show ?thesis using nB by (simp add: I_def)
      next
        case False
        have "scanStep data w h bgColor config y x st = st"
          unfolding st' using False notB fg [OF g] by (intro scanStep_skip) simp
        moreover have "insert (x, y) P \<inter> A = {}" using False none by auto
        ultimately show ?thesis using nB st' by (simp add: I_def)
      qed
    qed
  qed
  moreover have "{p. inGrid w h p} \<inter> B \<noteq> {}" using neB subB by auto
  ultimately show ?thesis by (simp add: I_def scanImage_def sB_def FB_def FA_def Let_def)
qed


text \<open>Two disjoint rectangles of foreground, the first starting earlier in scan order.\<close>

lemma floodFillAlgorithm_two_blocks:
  assumes valid: "validateInputs (Some img) config = Inr img"
    and bg: "detectBackgroundColor (pixels img) (naturalWidth img) (naturalHeight img) = Inr bgColor"
    and sz: "1 \<le> w1" "1 \<le> h1" "1 \<le> w2" "1 \<le> h2"
    and subA: "block x1 y1 w1 h1 \<subseteq> {p. inGrid (naturalWidth img) (naturalHeight img) p}"
    and subB: "block x2 y2 w2 h2 \<subseteq> {p. inGrid (naturalWidth img) (naturalHeight img) p}"
    and fg: "\<And>p. inGrid (naturalWidth img) (naturalHeight img) p \<Longrightarrow>
               foreground (pixels img) (naturalWidth img) bgColor (tolerance (mergeConfig config)) p
               = (p \<in> block x1 y1 w1 h1 \<or> p \<in> block x2 y2 w2 h2)"
    and sep: "\<And>p q. p \<in> block x1 y1 w1 h1 \<Longrightarrow> q \<in> block x2 y2 w2 h2 \<Longrightarrow>
               p \<noteq> q \<and> q \<notin> shifted neighbors4 p"
    and order: "y1 < y2 \<or> y1 = y2 \<and> x1 < x2"
    and noise: "\<not> enableNoiseReduction (mergeConfig config)
               \<or> thresholdOf (mergeConfig config) < w1 * h1
                 \<and> thresholdOf (mergeConfig config) < w2 * h2"
  shows "floodFillAlgorithm (Some img) config =
     Inr (if use8WayConnectivity (mergeConfig config)
             \<and> (\<exists>p q. p \<in> block x1 y1 w1 h1 \<and> q \<in> block x2 y2 w2 h2
                      \<and> q \<in> shifted neighbors8 p)
          then (if minSpriteSize (mergeConfig config) \<le> w1 * h1 + w2 * h2
                then [mkFrame 0 (min x1 x2) (min y1 y2)
                        (max (x1 + w1 - 1) (x2 + w2 - 1)) (max (y1 + h1 - 1) (y2 + h2 - 1))]
                else [])
          else (let FA = (if minSpriteSize (mergeConfig config) \<le> w1 * h1
                          then [mkFrame 0 x1 y1 (x1 + w1 - 1) (y1 + h1 - 1)] else [])
                in if minSpriteSize (mergeConfig config) \<le> w2 * h2
                   then FA @ [mkFrame (length FA) x2 y2 (x2 + w2 - 1) (y2 + h2 - 1)]
                   else FA))"
proof -
  let ?w = "naturalWidth img" and ?h = "naturalHeight img" and ?cfg = "mergeConfig config"
  let ?d = "pixels img" and ?t = "tolerance (mergeConfig config)"
  let ?A = "block x1 y1 w1 h1" and ?B = "block x2 y2 w2 h2"
  let ?ns = "if use8WayConnectivity ?cfg then neighbors8 else neighbors4"
  have a: "(x1, y1) \<in> ?A" and b: "(x2, y2) \<in> ?B" using sz by (simp_all add: block_def)
  from a subA have "inGrid ?w ?h (x1, y1)" by auto
  then have dims: "?w \<noteq> 0" "?h \<noteq> 0" by (auto simp: inGrid_def)
  have disj: "?A \<inter> ?B = {}" using sep by blast
  have finA: "finite ?A" and finB: "finite ?B"
    using subA subB finite_grid [of ?w ?h] by (auto intro: finite_subset)
  have neA: "?A \<noteq> {}" and neB: "?B \<noteq> {}" using a b by auto
  have gA: "inGrid ?w ?h p" if "p \<in> ?A" for p using that subA by auto
  have gB: "inGrid ?w ?h p" if "p \<in> ?B" for p using that subB by auto
  have fA: "foreground ?d ?w bgColor ?t p" if "p \<in> ?A" for p using that fg [OF gA] by simp
  have fB: "foreground ?d ?w bgColor ?t p" if "p \<in> ?B" for p using that fg [OF gB] by simp
  have sep': "p \<notin> shifted neighbors4 q" if "p \<in> ?A" "q \<in> ?B" for p q
    using sep [OF that] shifted4_sym [of p q] by blast
  have inAB: "q \<in> ?A \<or> q \<in> ?B" if "(p, q) \<in> edges ?d ?w ?h bgColor ?t ns V" for p q ns V
    using that fg [of q] by (simp add: edges_def)
  have sh: "q \<in> shifted ns p" if "(p, q) \<in> edges ?d ?w ?h bgColor ?t ns V" for p q ns V
    using that by (simp add: edges_def)
  have reg4A: "region ?d ?w ?h bgColor ?t neighbors4 {} p = ?A" if "p \<in> ?A" for p
  proof (rule region_block [OF _ _ subset_refl that])
    fix q assume "q \<in> ?A"
    then show "inGrid ?w ?h q \<and> idx ?w q \<notin> {} \<and> foreground ?d ?w bgColor ?t q"
      using gA fA by simp
  next
    fix q r assume "q \<in> ?A" "(q, r) \<in> edges ?d ?w ?h bgColor ?t neighbors4 {}"
    with inAB [OF this(2)] sh [OF this(2)] sep [of q r] show "r \<in> ?A" by blast
  qed
  have reg4B: "region ?d ?w ?h bgColor ?t neighbors4 {} p = ?B" if "p \<in> ?B" for p
  proof (rule region_block [OF _ _ subset_refl that])
    fix q assume "q \<in> ?B"
    then show "inGrid ?w ?h q \<and> idx ?w q \<notin> {} \<and> foreground ?d ?w bgColor ?t q"
      using gB fB by simp
  next
    fix q r assume "q \<in> ?B" "(q, r) \<in> edges ?d ?w ?h bgColor ?t neighbors4 {}"
    with inAB [OF this(2)] sh [OF this(2)] sep' [of r q] show "r \<in> ?B" by blast
  qed
  have nr: "applyNoiseReduction ?d ?w ?h bgColor ?cfg = ?d" if en: "enableNoiseReduction ?cfg"
  proof (rule applyNoiseReduction_unchanged)
    fix p assume "inGrid ?w ?h p" "foreground ?d ?w bgColor ?t p"
    with fg [of p] have "p \<in> ?A \<or> p \<in> ?B" by simp
    then show "thresholdOf ?cfg < int (card (region ?d ?w ?h bgColor ?t neighbors4 {} p))"
    proof
      assume "p \<in> ?A"
      from reg4A [OF this] noise en sz show ?thesis by (simp add: card_block)
    next
      assume "p \<in> ?B"
      from reg4B [OF this] noise en sz show ?thesis by (simp add: card_block)
    qed
  qed
  let ?touch = "\<exists>p q. p \<in> ?A \<and> q \<in> ?B \<and> q \<in> shifted neighbors8 p"
  show ?thesis
  proof (cases "use8WayConnectivity ?cfg \<and> ?touch")
    case True
    then have u8: "use8WayConnectivity ?cfg" by simp
    from True obtain ca cb where c: "ca \<in> ?A" "cb \<in> ?B" "cb \<in> shifted neighbors8 ca"
      by blast
    let ?E = "edges ?d ?w ?h bgColor ?t neighbors8 {}"
    have n48: "set neighbors4 \<subseteq> set neighbors8" by (auto simp: neighbors4_def neighbors8_def)
    have candA: "inGrid ?w ?h q \<and> idx ?w q \<notin> {} \<and> foreground ?d ?w bgColor ?t q"
      if "q \<in> ?A" for q using that gA fA by simp
    have candB: "inGrid ?w ?h q \<and> idx ?w q \<notin> {} \<and> foreground ?d ?w bgColor ?t q"
      if "q \<in> ?B" for q using that gB fB by simp
    have pA: "(s, p) \<in> ?E\<^sup>*" if "s \<in> ?A" "p \<in> ?A" for s p
      using block_path [OF candA n48 that(1) that(2)] by simp
    have pB: "(s, p) \<in> ?E\<^sup>*" if "s \<in> ?B" "p \<in> ?B" for s p
      using block_path [OF candB n48 that(1) that(2)] by simp
    have ab: "(ca, cb) \<in> ?E" using c gB fB by (simp add: edges_def)
    have ba: "(cb, ca) \<in> ?E" using c gA fA shifted8_sym [OF c(3)] by (simp add: edges_def)
    have pAB: "(s, p) \<in> ?E\<^sup>*" if "s \<in> ?A" "p \<in> ?B" for s p
    proof -
      have "(s, ca) \<in> ?E\<^sup>*" using that(1) c(1) by (rule pA)
      then have "(s, cb) \<in> ?E\<^sup>*" using ab by (rule rtrancl_into_rtrancl)
      moreover have "(cb, p) \<in> ?E\<^sup>*" using c(2) that(2) by (rule pB)
      ultimately show ?thesis by (rule rtrancl_trans)
    qed
    have pBA: "(s, p) \<in> ?E\<^sup>*" if "s \<in> ?B" "p \<in> ?A" for s p
    proof -
      have "(s, cb) \<in> ?E\<^sup>*" using that(1) c(2) by (rule pB)
      then have "(s, ca) \<in> ?E\<^sup>*" using ba by (rule rtrancl_into_rtrancl)
      moreover have "(ca, p) \<in> ?E\<^sup>*" using c(1) that(2) by (rule pA)
      ultimately show ?thesis by (rule rtrancl_trans)
    qed
    have reg8: "region ?d ?w ?h bgColor ?t neighbors8 {} p = ?A \<union> ?B"
      if "p \<in> ?A \<union> ?B" for p
    proof (rule region_eqI [OF that])
      fix q assume "q \<in> ?A \<union> ?B"
      with that pA pB pAB pBA show "(p, q) \<in> ?E\<^sup>*" by blast
    next
      fix q r assume "(q, r) \<in> ?E"
      from inAB [OF this] show "r \<in> ?A \<union> ?B" by simp
    qed
    have crd: "int (card (?A \<union> ?B)) = w1 * h1 + w2 * h2"
      using card_Un_disjoint [OF finA finB disj] sz by (simp add: card_block)
    have fs: "fst ` (?A \<union> ?B) = fst ` ?A \<union> fst ` ?B"
      and sn: "snd ` (?A \<union> ?B) = snd ` ?A \<union> snd ` ?B" by (rule image_Un)+
    have bounds: "Min (fst ` (?A \<union> ?B)) = min x1 x2" "Min (snd ` (?A \<union> ?B)) = min y1 y2"
      "Max (fst ` (?A \<union> ?B)) = max (x1 + w1 - 1) (x2 + w2 - 1)"
      "Max (snd ` (?A \<union> ?B)) = max (y1 + h1 - 1) (y2 + h2 - 1)"
      unfolding fs sn using finA finB neA neB sz
      by (simp_all add: Min_Un Max_Un block_bounds)
    have "fst (snd (scanImage ?d ?w ?h bgColor ?cfg)) =
       (if minSpriteSize ?cfg \<le> int (card (?A \<union> ?B))
        then [mkFrame 0 (Min (fst ` (?A \<union> ?B))) (Min (snd ` (?A \<union> ?B)))
                (Max (fst ` (?A \<union> ?B))) (Max (snd ` (?A \<union> ?B)))] else [])"
    proof (rule scanImage_one_region)
      show "?A \<union> ?B \<noteq> {}" using neA by simp
      show "?A \<union> ?B \<subseteq> {p. inGrid ?w ?h p}" using subA subB by simp
      show "foreground ?d ?w bgColor ?t p = (p \<in> ?A \<union> ?B)" if "inGrid ?w ?h p" for p
        using fg [OF that] by simp
      show "region ?d ?w ?h bgColor ?t ?ns {} p = ?A \<union> ?B" if "p \<in> ?A \<union> ?B" for p
        using reg8 [OF that] u8 by simp
    qed
    then have "fst (snd (scanImage ?d ?w ?h bgColor ?cfg)) =
       (if minSpriteSize ?cfg \<le> w1 * h1 + w2 * h2
        then [mkFrame 0 (min x1 x2) (min y1 y2)
                (max (x1 + w1 - 1) (x2 + w2 - 1)) (max (y1 + h1 - 1) (y2 + h2 - 1))]
        else [])"
      unfolding crd bounds .
    with valid bg dims nr have "floodFillAlgorithm (Some img) config =
       Inr (if minSpriteSize ?cfg \<le> w1 * h1 + w2 * h2
        then [mkFrame 0 (min x1 x2) (min y1 y2)
                (max (x1 + w1 - 1) (x2 + w2 - 1)) (max (y1 + h1 - 1) (y2 + h2 - 1))]
        else [])"
      by (simp add: floodFillAlgorithm_def Let_def)
    then show ?thesis by (simp only: if_P [OF True])
  next
    case False
    have sepns: "q \<notin> shifted ?ns p" if "p \<in> ?A" "q \<in> ?B" for p q
    proof (cases "use8WayConnectivity ?cfg")
      case True
      with False that have "q \<notin> shifted neighbors8 p" by blast
      with True show ?thesis by simp
    next
      case no8: False
      with sep [OF that] show ?thesis by simp
    qed
    have regA: "region ?d ?w ?h bgColor ?t ?ns {} p = ?A" if "p \<in> ?A" for p
    proof (rule region_block [OF _ _ neighbors4_subset that])
      fix q assume "q \<in> ?A"
      then show "inGrid ?w ?h q \<and> idx ?w q \<notin> {} \<and> foreground ?d ?w bgColor ?t q"
        using gA fA by simp
    next
      fix q r assume "q \<in> ?A" "(q, r) \<in> edges ?d ?w ?h bgColor ?t ?ns {}"
      with inAB [OF this(2)] sh [OF this(2)] sepns [of q r] show "r \<in> ?A" by blast
    qed
    have regB: "region ?d ?w ?h bgColor ?t ?ns (idx ?w ` ?A) p = ?B" if "p \<in> ?B" for p
    proof (rule region_block [OF _ _ neighbors4_subset that])
      fix q assume q: "q \<in> ?B"
      then have "q \<notin> ?A" using disj by auto
      with subA gB [OF q] have "idx ?w q \<notin> idx ?w ` ?A" by (rule idx_image_disjoint)
      with q show "inGrid ?w ?h q \<and> idx ?w q \<notin> idx ?w ` ?A \<and> foreground ?d ?w bgColor ?t q"
        using gB fB by simp
    next
      fix q r assume e: "(q, r) \<in> edges ?d ?w ?h bgColor ?t ?ns (idx ?w ` ?A)"
      then have "idx ?w r \<notin> idx ?w ` ?A" by (simp add: edges_def)
      then have "r \<notin> ?A" by auto
      with inAB [OF e] show "r \<in> ?B" by simp
    qed
    have first: "snd (x1, y1) < snd q \<or> snd (x1, y1) = snd q \<and> fst (x1, y1) < fst q"
      if "q \<in> ?B" for q
      using that order by (auto simp: block_def)
    have "fst (snd (scanImage ?d ?w ?h bgColor ?cfg)) =
       (let FA = (if minSpriteSize ?cfg \<le> int (card ?A)
                  then [mkFrame 0 (Min (fst ` ?A)) (Min (snd ` ?A))
                          (Max (fst ` ?A)) (Max (snd ` ?A))]
                  else [])
        in if minSpriteSize ?cfg \<le> int (card ?B)
           then FA @ [mkFrame (length FA) (Min (fst ` ?B)) (Min (snd ` ?B))
                        (Max (fst ` ?B)) (Max (snd ` ?B))]
           else FA)"
      using subA subB disj neB fg regA regB a first by (rule scanImage_two_regions)
    then have "fst (snd (scanImage ?d ?w ?h bgColor ?cfg)) =
       (let FA = (if minSpriteSize ?cfg \<le> w1 * h1
                  then [mkFrame 0 x1 y1 (x1 + w1 - 1) (y1 + h1 - 1)] else [])
        in if minSpriteSize ?cfg \<le> w2 * h2
           then FA @ [mkFrame (length FA) x2 y2 (x2 + w2 - 1) (y2 + h2 - 1)]
           else FA)"
      using sz by (simp only: card_block block_bounds zero_le_one order_trans [OF zero_le_one])
    with valid bg dims nr have "floodFillAlgorithm (Some img) config =
       Inr (let FA = (if minSpriteSize ?cfg \<le> w1 * h1
                  then [mkFrame 0 x1 y1 (x1 + w1 - 1) (y1 + h1 - 1)] else [])
        in if minSpriteSize ?cfg \<le> w2 * h2
           then FA @ [mkFrame (length FA) x2 y2 (x2 + w2 - 1) (y2 + h2 - 1)]
           else FA)"
      by (simp add: floodFillAlgorithm_def Let_def)
    then show ?thesis by (simp only: if_not_P [OF False])
  qed
qed


definition diagonalBlocksImage :: image where
  "diagonalBlocksImage =
     imageOf 6 6 (\<lambda>p. if inBlock 1 1 2 2 p \<or> inBlock 3 3 2 2 p then red else white)"

definition diagonalPixelsImage :: image where
  "diagonalPixelsImage =
     imageOf 4 4 (\<lambda>p. if inBlock 1 1 1 1 p \<or> inBlock 2 2 1 1 p then red else white)"

text \<open>
  Claim C5, as the code has it.  Take a loaded image and a valid configuration, and let
  the pixels that are not background be exactly two rectangular blocks, no pixel of one
  being equal or 4-adjacent to a pixel of the other, the first block being the one whose
  top-left corner comes first in scan order.  Let each block have at least
  \<open>minSpriteSize\<close> pixels and, unless noise reduction is disabled, more pixels than the
  noise threshold in force.  Then detection with 4-connectivity returns two frames, the
  two blocks, numbered 0 and 1 in scan order, also when the blocks touch at a corner;
  detection with 8-connectivity returns one frame, the bounding rectangle of both
  blocks, when a pixel of one block is a (then diagonal) neighbour of a pixel of the
  other, and the same two frames otherwise.
\<close>

theorem two_blocks_detection:
  assumes "validateInputs (Some img) config = Inr img"
    and "detectBackgroundColor (pixels img) (naturalWidth img) (naturalHeight img) = Inr bgColor"
    and "1 \<le> w1" "1 \<le> h1" "1 \<le> w2" "1 \<le> h2"
    and "\<forall>p. inBlock x1 y1 w1 h1 p \<or> inBlock x2 y2 w2 h2 p \<longrightarrow>
           inGrid (naturalWidth img) (naturalHeight img) p"
    and "\<forall>p. inGrid (naturalWidth img) (naturalHeight img) p \<longrightarrow>
           foreground (pixels img) (naturalWidth img) bgColor (tolerance (mergeConfig config)) p
           = (inBlock x1 y1 w1 h1 p \<or> inBlock x2 y2 w2 h2 p)"
    and "\<forall>p q. inBlock x1 y1 w1 h1 p \<and> inBlock x2 y2 w2 h2 q \<longrightarrow>
           p \<noteq> q \<and> q \<notin> shifted neighbors4 p"
    and "y1 < y2 \<or> y1 = y2 \<and> x1 < x2"
    and "\<not> enableNoiseReduction (mergeConfig config)
         \<or> thresholdOf (mergeConfig config) < w1 * h1
           \<and> thresholdOf (mergeConfig config) < w2 * h2"
    and "minSpriteSize (mergeConfig config) \<le> w1 * h1"
    and "minSpriteSize (mergeConfig config) \<le> w2 * h2"
  shows "floodFillAlgorithm (Some img) config =
     Inr (if use8WayConnectivity (mergeConfig config)
             \<and> (\<exists>p q. inBlock x1 y1 w1 h1 p \<and> inBlock x2 y2 w2 h2 q
                      \<and> q \<in> shifted neighbors8 p)
          then [\<lparr> frameId = 0, name = ''sprite_0'',
                  rect = \<lparr> rx = min x1 x2, ry = min y1 y2,
                           rw = max (x1 + w1) (x2 + w2) - min x1 x2,
                           rh = max (y1 + h1) (y2 + h2) - min y1 y2 \<rparr>,
                  frameType = ''simple'' \<rparr>]
          else [\<lparr> frameId = 0, name = ''sprite_0'',
                  rect = \<lparr> rx = x1, ry = y1, rw = w1, rh = h1 \<rparr>,
                  frameType = ''simple'' \<rparr>,
                \<lparr> frameId = 1, name = ''sprite_1'',
                  rect = \<lparr> rx = x2, ry = y2, rw = w2, rh = h2 \<rparr>,
                  frameType = ''simple'' \<rparr>])"
proof -
  let ?cfg = "mergeConfig config"
  let ?A = "block x1 y1 w1 h1" and ?B = "block x2 y2 w2 h2"
  have subA: "?A \<subseteq> {p. inGrid (naturalWidth img) (naturalHeight img) p}"
    and subB: "?B \<subseteq> {p. inGrid (naturalWidth img) (naturalHeight img) p}"
    using assms(7) unfolding inBlock_block by blast+
  have fg: "foreground (pixels img) (naturalWidth img) bgColor (tolerance ?cfg) p
      = (p \<in> ?A \<or> p \<in> ?B)" if "inGrid (naturalWidth img) (naturalHeight img) p" for p
    using assms(8) that unfolding inBlock_block by blast
  have sep: "p \<noteq> q \<and> q \<notin> shifted neighbors4 p" if "p \<in> ?A" "q \<in> ?B" for p q
    using assms(9) that unfolding inBlock_block by blast
  have "0 < w2 * h2" using assms(5,6) by simp
  with assms(12) have m: "minSpriteSize ?cfg \<le> w1 * h1 + w2 * h2" by simp
  have mx: "max (x1 + w1 - 1) (x2 + w2 - 1) - min x1 x2 + 1
      = max (x1 + w1) (x2 + w2) - min x1 x2"
    "max (y1 + h1 - 1) (y2 + h2 - 1) - min y1 y2 + 1
      = max (y1 + h1) (y2 + h2) - min y1 y2"
    by linarith+
  have "floodFillAlgorithm (Some img) config =
     Inr (if use8WayConnectivity ?cfg
             \<and> (\<exists>p q. p \<in> ?A \<and> q \<in> ?B \<and> q \<in> shifted neighbors8 p)
          then (if minSpriteSize ?cfg \<le> w1 * h1 + w2 * h2
                then [mkFrame 0 (min x1 x2) (min y1 y2)
                        (max (x1 + w1 - 1) (x2 + w2 - 1)) (max (y1 + h1 - 1) (y2 + h2 - 1))]
                else [])
          else (let FA = (if minSpriteSize ?cfg \<le> w1 * h1
                          then [mkFrame 0 x1 y1 (x1 + w1 - 1) (y1 + h1 - 1)] else [])
                in if minSpriteSize ?cfg \<le> w2 * h2
                   then FA @ [mkFrame (length FA) x2 y2 (x2 + w2 - 1) (y2 + h2 - 1)]
                   else FA))"
    using assms(1-6) subA subB fg sep assms(10,11) by (rule floodFillAlgorithm_two_blocks)
  then show ?thesis
    unfolding inBlock_block Let_def if_P [OF m] if_P [OF assms(12)] if_P [OF assms(13)]
    by (simp add: mkFrame_def mx)
qed


lemma diagonalBlocks_foreground:
  "\<forall>p \<in> set (gridPixels 6 6).
     foreground (pixels diagonalBlocksImage) 6 white 10 p
       = (inBlock 1 1 2 2 p \<or> inBlock 3 3 2 2 p)"
  by code_simp

lemma diagonalBlocks_background:
  "detectBackgroundColor (pixels diagonalBlocksImage) 6 6 = Inr white"
  by code_simp

theorem two_blocks_detection_witness:
  "floodFillAlgorithm (Some diagonalBlocksImage) emptyConfig =
     Inr [\<lparr> frameId = 0, name = ''sprite_0'', rect = \<lparr> rx = 1, ry = 1, rw = 2, rh = 2 \<rparr>,
            frameType = ''simple'' \<rparr>,
          \<lparr> frameId = 1, name = ''sprite_1'', rect = \<lparr> rx = 3, ry = 3, rw = 2, rh = 2 \<rparr>,
            frameType = ''simple'' \<rparr>]
   \<and> floodFillAlgorithm (Some diagonalBlocksImage)
        (emptyConfig\<lparr>p_use8WayConnectivity := Some True\<rparr>) =
     Inr [\<lparr> frameId = 0, name = ''sprite_0'', rect = \<lparr> rx = 1, ry = 1, rw = 4, rh = 4 \<rparr>,
            frameType = ''simple'' \<rparr>]"
proof -
  let ?img = diagonalBlocksImage
  let ?touch = "\<exists>p q. inBlock 1 1 2 2 p \<and> inBlock 3 3 2 2 q \<and> q \<in> shifted neighbors8 p"
  have dims: "naturalWidth ?img = 6" "naturalHeight ?img = 6" "complete ?img"
    by (simp_all add: diagonalBlocksImage_def imageOf_def)
  have touch: ?touch
    by (intro exI [of _ "(2, 2)"] exI [of _ "(3, 3)"])
      (simp add: inBlock_def shifted_def neighbors8_def)
  have main: "floodFillAlgorithm (Some ?img) (emptyConfig\<lparr>p_use8WayConnectivity := u\<rparr>) =
     Inr (if use8WayConnectivity (mergeConfig (emptyConfig\<lparr>p_use8WayConnectivity := u\<rparr>))
             \<and> ?touch
          then [\<lparr> frameId = 0, name = ''sprite_0'',
                  rect = \<lparr> rx = min 1 3, ry = min 1 3,
                           rw = max (1 + 2) (3 + 2) - min 1 3,
                           rh = max (1 + 2) (3 + 2) - min 1 3 \<rparr>,
                  frameType = ''simple'' \<rparr>]
          else [\<lparr> frameId = 0, name = ''sprite_0'',
                  rect = \<lparr> rx = 1, ry = 1, rw = 2, rh = 2 \<rparr>,
                  frameType = ''simple'' \<rparr>,
                \<lparr> frameId = 1, name = ''sprite_1'',
                  rect = \<lparr> rx = 3, ry = 3, rw = 2, rh = 2 \<rparr>,
                  frameType = ''simple'' \<rparr>])" for u
  proof -
    let ?c = "emptyConfig\<lparr>p_use8WayConnectivity := u\<rparr>"
    have cfg: "tolerance (mergeConfig ?c) = 10" "minSpriteSize (mergeConfig ?c) = 4"
      "thresholdOf (mergeConfig ?c) = 2"
      by (simp_all add: mergeConfig_def emptyConfig_def DEFAULT_CONFIG_def orDefault_def
          thresholdOf_def)
    have valid: "validateInputs (Some ?img) ?c = Inr ?img"
      using dims by (simp add: validateInputs_def emptyConfig_def)
    have bg: "detectBackgroundColor (pixels ?img) (naturalWidth ?img) (naturalHeight ?img)
        = Inr white"
      unfolding dims by (rule diagonalBlocks_background)
    have one: "(1::int) \<le> 2" by simp
    have inside: "\<forall>p. inBlock 1 1 2 2 p \<or> inBlock 3 3 2 2 p \<longrightarrow>
        inGrid (naturalWidth ?img) (naturalHeight ?img) p"
      unfolding dims by (auto simp: inBlock_def inGrid_def)
    have fg: "\<forall>p. inGrid (naturalWidth ?img) (naturalHeight ?img) p \<longrightarrow>
        foreground (pixels ?img) (naturalWidth ?img) white (tolerance (mergeConfig ?c)) p
        = (inBlock 1 1 2 2 p \<or> inBlock 3 3 2 2 p)"
      unfolding dims cfg using diagonalBlocks_foreground unfolding set_gridPixels by blast
    have sep: "\<forall>p q. inBlock 1 1 2 2 p \<and> inBlock 3 3 2 2 q \<longrightarrow>
        p \<noteq> q \<and> q \<notin> shifted neighbors4 p"
      by (auto simp: inBlock_def shifted_def neighbors4_def)
    have order: "(1::int) < 3 \<or> (1::int) = 3 \<and> (1::int) < 3" by simp
    have noise: "\<not> enableNoiseReduction (mergeConfig ?c)
        \<or> thresholdOf (mergeConfig ?c) < 2 * 2 \<and> thresholdOf (mergeConfig ?c) < 2 * 2"
      unfolding cfg by simp
    have minS: "minSpriteSize (mergeConfig ?c) \<le> 2 * 2" unfolding cfg by simp
    show ?thesis
      by (rule two_blocks_detection [where img = ?img and config = ?c and bgColor = white
            and ?w1.0 = 2 and ?h1.0 = 2 and ?w2.0 = 2 and ?h2.0 = 2
            and ?x1.0 = 1 and ?y1.0 = 1 and ?x2.0 = 3 and ?y2.0 = 3,
            OF valid bg one one one one inside fg sep order noise minS minS])
  qed
  have c0: "emptyConfig\<lparr>p_use8WayConnectivity := None\<rparr> = emptyConfig"
    by (simp add: emptyConfig_def)
  have u0: "\<not> use8WayConnectivity (mergeConfig emptyConfig)"
    and u1: "use8WayConnectivity (mergeConfig (emptyConfig\<lparr>p_use8WayConnectivity := Some True\<rparr>))"
    by (simp_all add: mergeConfig_def emptyConfig_def DEFAULT_CONFIG_def orDefault_def)
  from main [of None] u0 have a: "floodFillAlgorithm (Some ?img) emptyConfig =
     Inr [\<lparr> frameId = 0, name = ''sprite_0'', rect = \<lparr> rx = 1, ry = 1, rw = 2, rh = 2 \<rparr>,
            frameType = ''simple'' \<rparr>,
          \<lparr> frameId = 1, name = ''sprite_1'', rect = \<lparr> rx = 3, ry = 3, rw = 2, rh = 2 \<rparr>,
            frameType = ''simple'' \<rparr>]"
    unfolding c0 by (simp only: simp_thms if_False)
  from main [of "Some True"] u1 touch
  have b: "floodFillAlgorithm (Some ?img) (emptyConfig\<lparr>p_use8WayConnectivity := Some True\<rparr>) =
     Inr [\<lparr> frameId = 0, name = ''sprite_0'', rect = \<lparr> rx = 1, ry = 1, rw = 4, rh = 4 \<rparr>,
            frameType = ''simple'' \<rparr>]"
    by simp
  from a b show ?thesis by (rule conjI)
qed

text \<open>
  As stated, the claim fails for two blocks of one pixel each that touch at a corner:
  with \<open>minSpriteSize = 1\<close> the noise filter (enabled, threshold 2) repaints both before
  the scan, and detection returns no frame with 4-connectivity and no frame with
  8-connectivity.
\<close>

theorem two_blocks_detection_counterexample:
  "list_all (\<lambda>p. foreground (pixels diagonalPixelsImage) 4 white 10 p
                  = (inBlock 1 1 1 1 p \<or> inBlock 2 2 1 1 p)) (gridPixels 4 4)
   \<and> detectBackgroundColor (pixels diagonalPixelsImage) 4 4 = Inr white
   \<and> floodFillAlgorithm (Some diagonalPixelsImage)
        (emptyConfig\<lparr>p_minSpriteSize := Some 1\<rparr>) = Inr []
   \<and> floodFillAlgorithm (Some diagonalPixelsImage)
        (emptyConfig\<lparr>p_minSpriteSize := Some 1, p_use8WayConnectivity := Some True\<rparr>) = Inr []"
  by code_simp

end
